theory Spec2Isabelle
  imports Main "HOL-Library.Word"
begin

unbundle bit_operations_syntax

section \<open>Machine integers of the driver\<close>

text \<open>
  The driver \<^verbatim>\<open>drivers/clk/clk-si5338.c\<close> computes with the kernel's fixed-width
  unsigned integers.  \<^verbatim>\<open>unsigned long\<close> is the 64-bit one of an LP64 kernel.  Return
  codes (\<^verbatim>\<open>int rc\<close>) are mathematical integers: \<open>0\<close> is success, a negative
  number is \<open>-errno\<close>.
\<close>

type_synonym u8 = "8 word"
type_synonym u16 = "16 word"
type_synonym u32 = "32 word"
type_synonym u64 = "64 word"

definition EINVAL :: int where
  "EINVAL = 22"

definition ETIMEDOUT :: int where
  "ETIMEDOUT = 110"

definition MSINT_MIN :: u64 where
  "MSINT_MIN = 4"

definition MSINT_MAX :: u64 where
  "MSINT_MAX = 567"

section \<open>PLL and MultiSynth: the rational arithmetic\<close>

text \<open>
  A ratio \<open>ms = a + b / c\<close> is the triple \<open>(ms[0], ms[1], ms[2])\<close>, the chip's
  parameters are the triple \<open>(p[0], p[1], p[2])\<close>; the C arrays are tuples here.
\<close>

type_synonym ms_t = "u64 \<times> u64 \<times> u64"
type_synonym p_t = "u32 \<times> u32 \<times> u32"

text \<open>
  The loop of \<^verbatim>\<open>remove_common_factor\<close>.  At the loop head \<open>r = b\<close> always holds
  (\<open>r\<close> is initialised with \<open>b\<close>, and every iteration ends with \<open>b = r\<close>), so the
  loop condition \<open>r > 1\<close> is tested on \<open>b\<close>.  \<open>n\<close> and \<open>d\<close> are the two array cells.
\<close>

function rcf_loop :: "u64 \<Rightarrow> u64 \<Rightarrow> u64 \<Rightarrow> u64 \<Rightarrow> int \<times> u64 \<times> u64" where
  "rcf_loop n d a b =
     (if 1 < b then
        (let r = a - b * (a div b) in
         if r = 0 then (1, n div b, d div b)
         else rcf_loop n d b r)
      else (0, n, d))"
  by pat_completeness auto
termination
proof (relation "measure (\<lambda>(n, d, a, b). unat b)")
  show "wf (measure (\<lambda>(n, d, a, b). unat b))"
    by simp
next
  fix n d a b r :: u64
  assume b: "1 < b" and r: "r = a - b * (a div b)"
  have "r = a mod b"
    unfolding r by (simp add: minus_mult_div_eq_mod)
  moreover have "b \<noteq> 0"
    using b by auto
  ultimately have "r < b"
    by (simp add: word_mod_less_divisor word_neq_0_conv)
  then show "((n, d, b, r), (n, d, a, b)) \<in> measure (\<lambda>(n, d, a, b). unat b)"
    by (simp add: word_less_nat_alt)
qed

declare rcf_loop.simps [simp del]

definition remove_common_factor :: "u64 \<times> u64 \<Rightarrow> int \<times> u64 \<times> u64" where
  "remove_common_factor nd =
     (case nd of (n, d) \<Rightarrow>
        if d = 0 then (- 1, n, d)
        else if n = 0 then (1, n, 1)
        else rcf_loop n d (max n d) (min n d))"

definition p_to_ms :: "p_t \<Rightarrow> ms_t" where
  "p_to_ms p =
     (case p of (p0, p1, p2) \<Rightarrow>
        if p0 = 0 \<and> p1 = 0 \<and> p2 = 0 then (0, 0, 1)
        else
          (let ms2 = (ucast p2 :: u64);
               ms1 = drop_bit 7 (ms2 * ucast (p0 AND 0x7f) + ucast p1);
               ms0 = ucast (drop_bit 7 p0 + 4)
           in (ms0, ms1, ms2)))"

text \<open>
  The first loop of \<^verbatim>\<open>ms_to_p\<close>.  With \<open>ms_denom = 0\<close> and \<open>ms_num = 0\<close> the C loop
  never ends; \<open>None\<close> is that outcome.
\<close>

partial_function (option) ms_to_p_loop :: "u64 \<Rightarrow> u64 \<Rightarrow> (u64 \<times> u64) option" where
  "ms_to_p_loop ms_denom ms_num =
     (if 2 ^ 30 \<le> ms_denom \<or> (ms_denom OR ms_num) AND 1 = 0
      then ms_to_p_loop (drop_bit 1 ms_denom) (drop_bit 1 ms_num)
      else Some (ms_denom, ms_num))"

declare ms_to_p_loop.simps [code]

definition ms_to_p_params :: "u64 \<Rightarrow> u64 \<Rightarrow> u64 \<Rightarrow> p_t" where
  "ms_to_p_params ms_int ms_denom0 ms_num0 =
     (let ms_denom = (if ms_num0 = 0 \<or> ms_denom0 = 0 then 1 else ms_denom0);
          ms_num = (if ms_num0 = 0 \<or> ms_denom0 = 0 then 0 else ms_num0);
          d = push_bit 7 (ms_int * ms_denom + ms_num);
          p0 = (ucast (d div ms_denom - 512) :: u32);
          d' = push_bit 7 ms_num div ms_denom;
          p1 = (ucast (push_bit 7 ms_num - d' * ms_denom) :: u32);
          p2 = (ucast ms_denom :: u32)
      in (p0, p1, p2))"

definition ms_to_p :: "ms_t \<Rightarrow> p_t option" where
  "ms_to_p ms =
     (case ms of (ms_int, ms_num, ms_denom) \<Rightarrow>
        (case ms_to_p_loop ms_denom ms_num of
           None \<Rightarrow> None
         | Some (ms_denom', ms_num') \<Rightarrow> Some (ms_to_p_params ms_int ms_denom' ms_num')))"

text \<open>The trimming loop of \<^verbatim>\<open>cal_ms_p\<close>: \<open>while (ms[2] >= (1 << 30))\<close>.\<close>

function cal_ms_trim :: "u64 \<Rightarrow> u64 \<Rightarrow> u64 \<times> u64" where
  "cal_ms_trim ms1 ms2 =
     (if 2 ^ 30 \<le> ms2 then cal_ms_trim (drop_bit 1 ms1) (drop_bit 1 ms2) else (ms1, ms2))"
  by pat_completeness auto
termination
proof (relation "measure (\<lambda>(ms1, ms2). unat ms2)")
  show "wf (measure (\<lambda>(ms1, ms2). unat ms2))"
    by simp
next
  fix ms1 ms2 :: u64
  assume "2 ^ 30 \<le> ms2"
  then have "2 ^ 30 \<le> unat ms2"
    by (simp add: word_le_nat_alt)
  then have "unat ms2 div 2 < unat ms2"
    by simp
  then show "((drop_bit 1 ms1, drop_bit 1 ms2), (ms1, ms2)) \<in> measure (\<lambda>(ms1, ms2). unat ms2)"
    by (simp add: unat_drop_bit_eq drop_bit_eq_div unat_div)
qed

declare cal_ms_trim.simps [simp del]

text \<open>
  \<^verbatim>\<open>cal_ms_p\<close> up to its last statement: the ratio \<open>ms[]\<close> that it hands to
  \<^verbatim>\<open>ms_to_p\<close>.  The caller below excludes \<open>denominator = 0\<close>, where \<^verbatim>\<open>div64_u64\<close>
  traps.
\<close>

definition cal_ms :: "u64 \<Rightarrow> u64 \<Rightarrow> ms_t" where
  "cal_ms numerator denominator =
     (let ms0 = numerator div denominator;
          ms1 = numerator - ms0 * denominator;
          (ms1, ms2) = cal_ms_trim ms1 denominator;
          (rc, ms1, ms2) = remove_common_factor (ms1, ms2);
          ms0 = (if ms0 < MSINT_MIN then MSINT_MIN
                 else if ms0 = 5 \<or> ms0 = 7 then ms0 + 1
                 else if MSINT_MAX < ms0 then MSINT_MAX
                 else ms0)
      in (ms0, ms1, ms2))"

text \<open>
  \<^verbatim>\<open>cal_ms_p\<close>.  \<open>None\<close>: the function does not return (the division by a zero
  denominator traps, or the loop of \<^verbatim>\<open>ms_to_p\<close> does not end).
\<close>

definition cal_ms_p :: "u64 \<Rightarrow> u64 \<Rightarrow> p_t option" where
  "cal_ms_p numerator denominator =
     (if denominator = 0 then None else ms_to_p (cal_ms numerator denominator))"

section \<open>The register map\<close>

text \<open>
  Modelled from the spec: \<^verbatim>\<open>regmap_read\<close>, \<^verbatim>\<open>regmap_write\<close>,
  \<^verbatim>\<open>regmap_update_bits\<close> and \<^verbatim>\<open>msleep\<close> are kernel services that the driver
  only calls.  The spec's RegisterMap is a byte-addressed store whose accesses can
  fail with an I/O error and whose volatile registers are read from the chip every
  time.  The model keeps
  \<^item> \<open>regs\<close>: the byte stored at each register address;
  \<^item> \<open>chip\<close>: the bytes the chip presents at the next reads of volatile registers
    (when the list is used up, a volatile read returns the stored byte);
  \<^item> \<open>faults\<close>: the errno of each of the next accesses, \<open>0\<close> for success (when the
    list is used up, every access succeeds);
  \<^item> \<open>trace\<close>: the accesses issued and the delays slept so far, oldest first;
  \<^item> \<open>stale\<close>: the byte that an uninitialised local variable of the driver holds
    after the \<open>n\<close> accesses and delays so far, for every \<open>n\<close>.
  A failed access changes no register.
\<close>

datatype event =
    Read u16
  | Write u16 u8 u8
  | Sleep nat

record regmap =
  regs :: "u16 \<Rightarrow> u8"
  chip :: "u8 list"
  faults :: "nat list"
  trace :: "event list"
  stale :: "nat \<Rightarrow> u8"

text \<open>The outcome of the next access: its return code, and the faults left.\<close>

definition next_fault :: "regmap \<Rightarrow> int \<times> nat list" where
  "next_fault st = (case faults st of [] \<Rightarrow> (0, []) | e # es \<Rightarrow> (- int e, es))"

definition msleep :: "regmap \<Rightarrow> nat \<Rightarrow> regmap" where
  "msleep st ms = st\<lparr>trace := trace st @ [Sleep ms]\<rparr>"

text \<open>\<^verbatim>\<open>si5338_regmap_is_volatile\<close>: status, soft reset and the three FCAL registers.\<close>

definition si5338_regmap_is_volatile :: "u16 \<Rightarrow> bool" where
  "si5338_regmap_is_volatile reg =
     (reg = 0xda \<or> reg = 0xf6 \<or> reg = 0xeb \<or> reg = 0xec \<or> reg = 0xed)"

text \<open>
  \<^verbatim>\<open>regmap_read\<close>: return code, value read, new state.  On failure the kernel
  leaves \<open>*val\<close> untouched: \<open>None\<close>.
\<close>

definition regmap_read :: "regmap \<Rightarrow> u16 \<Rightarrow> (int \<times> u8 option) \<times> regmap" where
  "regmap_read st reg =
     (let (ret, fs) = next_fault st;
          st1 = st\<lparr>faults := fs, trace := trace st @ [Read reg]\<rparr>
      in if ret < 0 then ((ret, None), st1)
         else if si5338_regmap_is_volatile reg then
           (case chip st1 of
              [] \<Rightarrow> ((0, Some (regs st1 reg)), st1)
            | v # vs \<Rightarrow> ((0, Some v), st1\<lparr>chip := vs\<rparr>))
         else ((0, Some (regs st1 reg)), st1))"

definition regmap_write :: "regmap \<Rightarrow> u16 \<Rightarrow> u8 \<Rightarrow> int \<times> regmap" where
  "regmap_write st reg val =
     (let (ret, fs) = next_fault st;
          st1 = st\<lparr>faults := fs, trace := trace st @ [Write reg val 0xff]\<rparr>
      in if ret < 0 then (ret, st1)
         else (0, st1\<lparr>regs := (regs st1)(reg := val)\<rparr>))"

definition regmap_update_bits :: "regmap \<Rightarrow> u16 \<Rightarrow> u8 \<Rightarrow> u8 \<Rightarrow> int \<times> regmap" where
  "regmap_update_bits st reg msk val =
     (let (ret, fs) = next_fault st;
          st1 = st\<lparr>faults := fs, trace := trace st @ [Write reg val msk]\<rparr>
      in if ret < 0 then (ret, st1)
         else (0, st1\<lparr>regs := (regs st1)(reg := (regs st1 reg AND NOT msk) OR (val AND msk))\<rparr>))"

section \<open>Register access of the driver\<close>

text \<open>
  \<^verbatim>\<open>si5338_reg_read\<close> is declared to return \<^verbatim>\<open>u8\<close>: the return code of
  \<^verbatim>\<open>regmap_read\<close> is cut to its low byte, so the callers, which store it in an
  \<^verbatim>\<open>int\<close>, never see a negative value.  The local \<^verbatim>\<open>u32 val\<close> that receives the
  byte is not initialised, and \<^verbatim>\<open>*data = (u8)val\<close> is executed also when
  \<^verbatim>\<open>regmap_read\<close> has failed: \<open>*data\<close> is then the byte that the local happens to
  hold.
\<close>

definition si5338_reg_read :: "regmap \<Rightarrow> u16 \<Rightarrow> (int \<times> u8) \<times> regmap" where
  "si5338_reg_read st reg =
     (case regmap_read st reg of
        ((ret, val), st') \<Rightarrow>
          ((uint (word_of_int ret :: u8),
            case val of None \<Rightarrow> stale st' (length (trace st')) | Some v \<Rightarrow> v), st'))"

definition si5338_reg_write :: "regmap \<Rightarrow> u16 \<Rightarrow> u8 \<Rightarrow> u8 \<Rightarrow> int \<times> regmap" where
  "si5338_reg_write st reg val msk =
     (if msk \<noteq> 0xff then regmap_update_bits st reg msk val
      else regmap_write st reg val)"

text \<open>
  \<^verbatim>\<open>while (!((1 << nshift) & mask)) nshift++;\<close>  Every caller tests \<open>mask \<noteq> 0\<close>
  first, so the loop stops at the lowest set bit, below 8; the bound \<open>nshift < 8\<close>
  only makes the function total.
\<close>

function nshift_loop :: "u8 \<Rightarrow> nat \<Rightarrow> nat" where
  "nshift_loop msk nshift =
     (if nshift < 8 \<and> push_bit nshift 1 AND msk = 0 then nshift_loop msk (Suc nshift)
      else nshift)"
  by pat_completeness auto
termination
  by (relation "measure (\<lambda>(msk, nshift). 8 - nshift)") auto

declare nshift_loop.simps [simp del]

text \<open>\<^verbatim>\<open>while ((1 << (nshift + nbits)) & mask) nbits++;\<close>\<close>

function nbits_loop :: "u8 \<Rightarrow> nat \<Rightarrow> nat \<Rightarrow> nat" where
  "nbits_loop msk nshift nbits =
     (if push_bit (nshift + nbits) 1 AND msk \<noteq> 0 then nbits_loop msk nshift (Suc nbits)
      else nbits)"
  by pat_completeness auto
termination
proof (relation "measure (\<lambda>(msk, nshift, nbits). 8 - (nshift + nbits))")
  show "wf (measure (\<lambda>(msk, nshift, nbits). 8 - (nshift + nbits)))"
    by simp
next
  fix msk :: u8 and nshift nbits :: nat
  assume set: "push_bit (nshift + nbits) 1 AND msk \<noteq> 0"
  have "nshift + nbits < 8"
  proof (rule ccontr)
    assume "\<not> nshift + nbits < 8"
    then have z: "(2 :: u8) ^ (nshift + nbits) = 0"
      by (simp add: exp_eq_zero_iff)
    have "push_bit (nshift + nbits) 1 AND msk = 2 ^ (nshift + nbits) AND msk"
      by (simp add: push_bit_eq_mult)
    also have "\<dots> = 0"
      unfolding z by simp
    finally show False
      using set by contradiction
  qed
  then show "((msk, nshift, Suc nbits), (msk, nshift, nbits))
      \<in> measure (\<lambda>(msk, nshift, nbits). 8 - (nshift + nbits))"
    by simp
qed

declare nbits_loop.simps [simp del]

definition awe_reg :: "u32 \<Rightarrow> u16" where
  "awe_reg awe = ucast (drop_bit 8 awe)"

definition awe_mask :: "u32 \<Rightarrow> u8" where
  "awe_mask awe = ucast (awe AND 0xff)"

definition write_field :: "regmap \<Rightarrow> u8 \<Rightarrow> u32 \<Rightarrow> int \<times> regmap" where
  "write_field st data awe =
     (let reg = awe_reg awe; msk = awe_mask awe in
      if msk \<noteq> 0 then
        (let nshift = nshift_loop msk 0;
             reg_data = push_bit nshift (data AND 0xff);
             (rc, st') = si5338_reg_write st reg reg_data msk
         in if rc < 0 then (rc, st') else (0, st'))
      else (0, st))"

text \<open>
  \<^verbatim>\<open>write_multireg64\<close>.  The list is the C array \<open>awe[]\<close> with its terminating
  \<open>0\<close>; the loop stops at the first \<open>0\<close> entry (\<open>[]\<close> is the end of a list that has
  none).
\<close>

fun write_multireg64 :: "regmap \<Rightarrow> u64 \<Rightarrow> u32 list \<Rightarrow> int \<times> regmap" where
  "write_multireg64 st data [] = (0, st)"
| "write_multireg64 st data (awe # rest) =
     (if awe = 0 then (0, st)
      else
        (let reg = awe_reg awe; msk = awe_mask awe in
         if msk \<noteq> 0 then
           (let nshift = nshift_loop msk 0;
                nbits = nbits_loop msk nshift 1;
                reg_data = (ucast (push_bit nshift (data AND 0xff)) :: u8);
                data' = drop_bit nbits data;
                (rc, st') = si5338_reg_write st reg reg_data msk
            in if rc < 0 then (rc, st') else write_multireg64 st' data' rest)
         else write_multireg64 st data rest))"

text \<open>
  \<^verbatim>\<open>read_multireg64\<close>: the loop with its accumulators \<open>*data\<close> and \<open>full_shift\<close>,
  and the function that starts it with \<open>0\<close> and \<open>0\<close>.
\<close>

fun read_multireg64_loop ::
  "regmap \<Rightarrow> u32 list \<Rightarrow> u64 \<Rightarrow> nat \<Rightarrow> (int \<times> u64) \<times> regmap" where
  "read_multireg64_loop st [] data full_shift = ((0, data), st)"
| "read_multireg64_loop st (awe # rest) data full_shift =
     (if awe = 0 then ((0, data), st)
      else
        (let reg = awe_reg awe; msk = awe_mask awe in
         if msk \<noteq> 0 then
           (let nshift = nshift_loop msk 0;
                nbits = nbits_loop msk nshift 1;
                ((rc, val), st') = si5338_reg_read st reg
            in if rc < 0 then ((rc, data), st')
               else read_multireg64_loop st' rest
                      (data OR push_bit full_shift (drop_bit nshift (ucast (val AND msk))))
                      (full_shift + nbits))
         else read_multireg64_loop st rest data full_shift))"

definition read_multireg64 :: "regmap \<Rightarrow> u32 list \<Rightarrow> (int \<times> u64) \<times> regmap" where
  "read_multireg64 st awe = read_multireg64_loop st awe 0 0"

definition read_field :: "regmap \<Rightarrow> u32 \<Rightarrow> int \<times> regmap" where
  "read_field st awe =
     (let reg = awe_reg awe; msk = awe_mask awe in
      if msk \<noteq> 0 then
        (let nshift = nshift_loop msk 0;
             ((rc, val), st') = si5338_reg_read st reg
         in if rc < 0 then (rc, st') else (uint (drop_bit nshift (val AND msk)), st'))
      else (0, st))"

section \<open>The register writes of a field write\<close>

text \<open>
  The register writes that the loop of \<^verbatim>\<open>write_multireg64\<close> issues for \<open>data\<close> when
  none of them fails, in the order of the descriptor: the register, the byte
  \<open>reg_data\<close> and the mask of each.  An entry with an empty mask issues none and
  leaves \<open>data\<close> as it is.
\<close>

fun field_writes :: "u64 \<Rightarrow> u32 list \<Rightarrow> (u16 \<times> u8 \<times> u8) list" where
  "field_writes data [] = []"
| "field_writes data (awe # rest) =
     (if awe = 0 then []
      else if awe_mask awe = 0 then field_writes data rest
      else
        (awe_reg awe,
         ucast (push_bit (nshift_loop (awe_mask awe) 0) (data AND 0xff)),
         awe_mask awe)
        # field_writes
            (drop_bit (nbits_loop (awe_mask awe) (nshift_loop (awe_mask awe) 0) 1) data) rest)"

text \<open>
  What one register write that succeeds does to the stored bytes: the mask \<open>0xff\<close>
  replaces the byte of the register (\<^verbatim>\<open>regmap_write\<close>), any other mask replaces
  the bits under it and keeps the others (\<^verbatim>\<open>regmap_update_bits\<close>).
\<close>

definition apply_write :: "(u16 \<Rightarrow> u8) \<Rightarrow> u16 \<times> u8 \<times> u8 \<Rightarrow> (u16 \<Rightarrow> u8)" where
  "apply_write r w =
     (case w of (reg, val, msk) \<Rightarrow>
        r(reg := if msk = 0xff then val else (r reg AND NOT msk) OR (val AND msk)))"

text \<open>The access that a register write leaves in the trace.\<close>

definition write_event :: "u16 \<times> u8 \<times> u8 \<Rightarrow> event" where
  "write_event w = (case w of (reg, val, msk) \<Rightarrow> Write reg val msk)"

section \<open>MultiSynth and PLL parameters in the registers\<close>

text \<open>
  The address-with-mask words \<^verbatim>\<open>AWE_*\<close> are \<open>0xAAAMM\<close>: register address and bit
  mask.  \<^verbatim>\<open>awe_msx[chn][i]\<close> lists the registers of parameter \<open>p[i]\<close> of MS0, MS1,
  MS2, MS3 and MSN (the PLL), each list with its terminating \<open>0\<close>.
\<close>

definition awe_msx :: "u32 list list list" where
  "awe_msx =
     [[[0x35ff, 0x36ff, 0x3703, 0, 0],
       [0x37fc, 0x38ff, 0x39ff, 0x3aff, 0],
       [0x3bff, 0x3cff, 0x3dff, 0x3e3f, 0]],
      [[0x40ff, 0x41ff, 0x4203, 0, 0],
       [0x42fc, 0x43ff, 0x44ff, 0x45ff, 0],
       [0x46ff, 0x47ff, 0x48ff, 0x493f, 0]],
      [[0x4bff, 0x4cff, 0x4d03, 0, 0],
       [0x4dfc, 0x4eff, 0x4fff, 0x50ff, 0],
       [0x51ff, 0x52ff, 0x53ff, 0x543f, 0]],
      [[0x56ff, 0x57ff, 0x5803, 0, 0],
       [0x58fc, 0x59ff, 0x5aff, 0x5bff, 0],
       [0x5cff, 0x5dff, 0x5eff, 0x5f3f, 0]],
      [[0x61ff, 0x62ff, 0x6303, 0, 0],
       [0x63fc, 0x64ff, 0x65ff, 0x66ff, 0],
       [0x67ff, 0x68ff, 0x69ff, 0x6a3f, 0]]]"

text \<open>\<^verbatim>\<open>awe_ms_hs[]\<close>: the high-speed bits of MS0 to MS3, four entries.\<close>

definition awe_ms_hs :: "u32 list" where
  "awe_ms_hs = [0x3310, 0x3320, 0x3340, 0x3380]"

text \<open>
  \<^verbatim>\<open>awe_ms_hs[chn]\<close> as \<^verbatim>\<open>set_ms_p\<close> reads it.  The table has no entry for the PLL
  (\<open>chn = 4\<close>), which \<^verbatim>\<open>_verify_ms_channel\<close> lets through: the C code then reads the
  word that the memory holds behind the table.  That word is the parameter
  \<open>beyond\<close>.
\<close>

definition awe_ms_hs_at :: "u32 \<Rightarrow> int \<Rightarrow> u32" where
  "awe_ms_hs_at beyond chn =
     (if 0 \<le> chn \<and> chn < 4 then awe_ms_hs ! nat chn else beyond)"

definition verify_ms_channel :: "int \<Rightarrow> int" where
  "verify_ms_channel chn = (if chn < 0 \<or> 4 < chn then - EINVAL else 0)"

text \<open>
  \<^verbatim>\<open>get_ms_p\<close>: \<open>p\<close> is the caller's array; a failure on the way leaves the entries
  already read in it.
\<close>

definition get_ms_p :: "regmap \<Rightarrow> p_t \<Rightarrow> int \<Rightarrow> (int \<times> p_t) \<times> regmap" where
  "get_ms_p st p chn =
     (case p of (p0, p1, p2) \<Rightarrow>
      if verify_ms_channel chn < 0 then ((verify_ms_channel chn, p), st)
      else
        (case read_multireg64 st (awe_msx ! nat chn ! 0) of ((rc, data), st) \<Rightarrow>
         if rc < 0 then ((rc, p), st)
         else
           (let p0 = (ucast data :: u32) in
            case read_multireg64 st (awe_msx ! nat chn ! 1) of ((rc, data), st) \<Rightarrow>
            if rc < 0 then ((rc, (p0, p1, p2)), st)
            else
              (let p1 = (ucast data :: u32) in
               case read_multireg64 st (awe_msx ! nat chn ! 2) of ((rc, data), st) \<Rightarrow>
               if rc < 0 then ((rc, (p0, p1, p2)), st)
               else ((0, (p0, p1, ucast data)), st)))))"

text \<open>
  \<^verbatim>\<open>set_ms_p\<close>: the high speed bit programming changes the caller's array \<open>p\<close>,
  which is returned with the return code.
\<close>

definition set_ms_p :: "u32 \<Rightarrow> regmap \<Rightarrow> p_t \<Rightarrow> int \<Rightarrow> (int \<times> p_t) \<times> regmap" where
  "set_ms_p beyond st p chn =
     (if verify_ms_channel chn < 0 then ((verify_ms_channel chn, p), st)
      else
        (let (hs, p) =
               (case p of (p0, p1, p2) \<Rightarrow>
                  if p0 < 512 then (1 :: u8, (if p0 < 128 then 0 else 256, 0, 1))
                  else (0, p))
         in case write_field st hs (awe_ms_hs_at beyond chn) of (rc, st) \<Rightarrow>
            if rc < 0 then ((rc, p), st)
            else
              (case p of (p0, p1, p2) \<Rightarrow>
               case write_multireg64 st (ucast p0) (awe_msx ! nat chn ! 0) of (rc, st) \<Rightarrow>
               if rc < 0 then ((rc, p), st)
               else
                 (case write_multireg64 st (ucast p1) (awe_msx ! nat chn ! 1) of (rc, st) \<Rightarrow>
                  if rc < 0 then ((rc, p), st)
                  else
                    (case write_multireg64 st (ucast p2) (awe_msx ! nat chn ! 2) of (rc, st) \<Rightarrow>
                     if rc < 0 then ((rc, p), st) else ((0, p), st))))))"

section \<open>Clock nodes\<close>

text \<open>
  \<^verbatim>\<open>struct si5338_parameters\<close> and the part of \<^verbatim>\<open>struct si5338_hw_data\<close> that the
  rate operations use.
\<close>

record si5338_parameters =
  p :: p_t
  valid :: bool

record si5338_hw_data =
  params :: si5338_parameters
  num :: u8

definition FVCOMIN :: u64 where
  "FVCOMIN = 2200000000"

definition FVCOMAX :: u64 where
  "FVCOMAX = 2840000000"

text \<open>
  \<^verbatim>\<open>si5338_pll_set_rate\<close>.  \<open>None\<close>: \<^verbatim>\<open>cal_ms_p\<close> does not return.  The node and
  the register map are returned with the return code.
\<close>

definition si5338_pll_set_rate ::
  "u32 \<Rightarrow> si5338_hw_data \<Rightarrow> regmap \<Rightarrow> u64 \<Rightarrow> u64 \<Rightarrow> (int \<times> si5338_hw_data \<times> regmap) option" where
  "si5338_pll_set_rate beyond hwdata st rate parent_rate =
     (let rate = (if rate < FVCOMIN then FVCOMIN
                  else if FVCOMAX < rate then FVCOMAX
                  else rate)
      in case cal_ms_p rate parent_rate of
           None \<Rightarrow> None
         | Some p' \<Rightarrow>
             (case set_ms_p beyond st p' 4 of ((rc, p''), st') \<Rightarrow>
                Some (rc, hwdata\<lparr>params := \<lparr>p = p'', valid = True\<rparr>\<rparr>, st')))"

text \<open>\<^verbatim>\<open>si5338_msynth_set_rate\<close>.\<close>

definition si5338_msynth_set_rate ::
  "u32 \<Rightarrow> si5338_hw_data \<Rightarrow> regmap \<Rightarrow> u64 \<Rightarrow> u64 \<Rightarrow> (int \<times> si5338_hw_data \<times> regmap) option" where
  "si5338_msynth_set_rate beyond hwdata st rate parent_rate =
     (let rate = (if rate = 0 then (parent_rate + MSINT_MAX - 1) div MSINT_MAX else rate)
      in case cal_ms_p parent_rate rate of
           None \<Rightarrow> None
         | Some p' \<Rightarrow>
             (case set_ms_p beyond st p' (uint (num hwdata)) of ((rc, p''), st') \<Rightarrow>
                Some (rc, hwdata\<lparr>params := \<lparr>p = p'', valid = True\<rparr>\<rparr>, st')))"

text \<open>
  The \<^verbatim>\<open>else\<close> branch of \<^verbatim>\<open>si5338_msynth_round_rate\<close>: the node is not the
  rate-setting master (\<^verbatim>\<open>CLK_SET_RATE_PARENT\<close> is clear), \<open>parent_rate\<close> is
  \<^verbatim>\<open>*parent_rate\<close>.  The local \<open>out_div\<close> is not initialised in C; \<open>out_div\<close> is the
  value it happens to hold, and its final value is returned with the result.
  \<open>None\<close>: a division by zero traps or \<^verbatim>\<open>cal_ms_p\<close> does not return.
\<close>

definition si5338_msynth_round_rate_nonmaster ::
  "si5338_hw_data \<Rightarrow> u64 \<Rightarrow> u64 \<Rightarrow> u64 \<Rightarrow> (int \<times> u64 \<times> si5338_hw_data) option" where
  "si5338_msynth_round_rate_nonmaster hwdata rate parent_rate out_div =
     (if rate = 0 then Some (- EINVAL, out_div, hwdata)
      else
        (let ms0 = parent_rate div rate;
             ms1 = parent_rate - ms0 * rate;
             (rc, ms1, ms2) = remove_common_factor (ms1, rate);
             out_div = (if ms0 = 5 \<or> ms0 = 7 then out_div + 1 else out_div)
         in if ms1 + ms0 * ms2 = 0 then None
            else
              (let rate = (parent_rate * ms2) div (ms1 + ms0 * ms2)
               in case cal_ms_p parent_rate rate of
                    None \<Rightarrow> None
                  | Some p' \<Rightarrow>
                      Some (sint rate, out_div,
                            hwdata\<lparr>params := \<lparr>p = p', valid = True\<rparr>\<rparr>))))"

section \<open>Output clocks\<close>

definition awe_rdiv_k :: "u32 list" where
  "awe_rdiv_k = [0x1f1c, 0x201c, 0x211c, 0x221c]"

definition awe_rdiv_in :: "u32 list" where
  "awe_rdiv_in = [0x1fe0, 0x20e0, 0x21e0, 0x22e0]"

definition out_div_values :: "u8 list" where
  "out_div_values = [1, 2, 4, 8, 16, 32]"

definition verify_output_channel :: "int \<Rightarrow> int" where
  "verify_output_channel chn = (if chn < 0 \<or> 3 < chn then - EINVAL else 0)"

text \<open>The \<^verbatim>\<open>for\<close> loop of \<^verbatim>\<open>set_out_div\<close> over \<^verbatim>\<open>out_div_values[]\<close>, from \<open>val\<close> on.\<close>

fun set_out_div_loop :: "regmap \<Rightarrow> int \<Rightarrow> int \<Rightarrow> u8 list \<Rightarrow> u8 \<Rightarrow> int \<times> regmap" where
  "set_out_div_loop st div' chn [] val = (- EINVAL, st)"
| "set_out_div_loop st div' chn (v # vs) val =
     (if uint v = div' then
        (case write_field st val (awe_rdiv_k ! nat chn) of (rc, st') \<Rightarrow>
           if rc < 0 then (rc, st') else (0, st'))
      else set_out_div_loop st div' chn vs (val + 1))"

definition set_out_div :: "regmap \<Rightarrow> int \<Rightarrow> int \<Rightarrow> int \<times> regmap" where
  "set_out_div st div' chn =
     (if verify_output_channel chn < 0 then (verify_output_channel chn, st)
      else set_out_div_loop st div' chn out_div_values 0)"

text \<open>
  The kernel's \<^verbatim>\<open>abs()\<close> on an \<^verbatim>\<open>unsigned long\<close>: the argument is read as a
  \<^verbatim>\<open>long\<close>, and the result is stored in an \<^verbatim>\<open>unsigned long\<close> again.
\<close>

definition abs_ul :: "u64 \<Rightarrow> u64" where
  "abs_ul x = (if sint x < 0 then - x else x)"

text \<open>
  The \<^verbatim>\<open>do ... while\<close> loop that \<^verbatim>\<open>si5338_clkout_set_rate\<close> and the second branch
  of \<^verbatim>\<open>si5338_clkout_round_rate\<close> share.  At the loop head \<open>new_err\<close> is
  \<open>abs(new_rate - rate)\<close> (set before the loop, and again at the end of its body),
  so \<open>err\<close> is computed from \<open>new_rate\<close>.  The result is \<open>r_div\<close> at the exit.
\<close>

function r_div_loop :: "u64 \<Rightarrow> u64 \<Rightarrow> int \<Rightarrow> int" where
  "r_div_loop rate new_rate r_div =
     (let err = abs_ul (new_rate - rate);
          new_rate' = drop_bit 1 new_rate;
          r_div' = r_div * 2;
          new_err = abs_ul (new_rate' - rate)
      in if new_err < err \<and> r_div' < 32 then r_div_loop rate new_rate' r_div' else r_div')"
  by pat_completeness auto
termination
proof (relation "measure (\<lambda>(rate, new_rate, r_div). unat new_rate)")
  show "wf (measure (\<lambda>(rate, new_rate, r_div). unat new_rate))"
    by simp
next
  fix rate new_rate err new_rate' new_err :: u64 and r_div r_div' :: int
  assume "err = abs_ul (new_rate - rate)" and "new_rate' = drop_bit 1 new_rate"
    and "new_err = abs_ul (new_rate' - rate)" and "new_err < err \<and> r_div' < 32"
  then have "new_rate' \<noteq> new_rate"
    by auto
  then have "unat new_rate \<noteq> 0"
    using \<open>new_rate' = drop_bit 1 new_rate\<close> by (auto simp: unat_eq_0)
  then have "unat (drop_bit 1 new_rate) < unat new_rate"
    by (simp add: unat_drop_bit_eq drop_bit_eq_div unat_div)
  then show "((rate, new_rate', r_div'), (rate, new_rate, r_div))
      \<in> measure (\<lambda>(rate, new_rate, r_div). unat new_rate)"
    using \<open>new_rate' = drop_bit 1 new_rate\<close> by simp
qed

declare r_div_loop.simps [simp del]

text \<open>\<^verbatim>\<open>si5338_clkout_set_rate\<close>; \<open>r_div\<close> is the divider it hands to \<^verbatim>\<open>set_out_div\<close>.\<close>

definition clkout_set_rate_r_div :: "u64 \<Rightarrow> u64 \<Rightarrow> int" where
  "clkout_set_rate_r_div rate parent_rate = r_div_loop rate parent_rate 1 div 2"

definition si5338_clkout_set_rate ::
  "si5338_hw_data \<Rightarrow> regmap \<Rightarrow> u64 \<Rightarrow> u64 \<Rightarrow> int \<times> regmap" where
  "si5338_clkout_set_rate hwdata st rate parent_rate =
     set_out_div st (clkout_set_rate_r_div rate parent_rate) (uint (num hwdata))"

text \<open>
  The \<^verbatim>\<open>while\<close> loop of the first branch of \<^verbatim>\<open>si5338_clkout_round_rate\<close>.
  \<open>r_div\<close> starts at 1 and doubles, so \<open>0 < r_div\<close> holds at every test; the model
  states it to make the function total.
\<close>

function scale_loop :: "u64 \<Rightarrow> u64 \<Rightarrow> u8 \<Rightarrow> u64 \<times> u8" where
  "scale_loop scaled_max out_freq_scaled r_div =
     (if 0 < r_div \<and> r_div < 32 \<and> out_freq_scaled < scaled_max
      then scale_loop scaled_max (push_bit 1 out_freq_scaled) (push_bit 1 r_div)
      else (out_freq_scaled, r_div))"
  by pat_completeness auto
termination
proof (relation "measure (\<lambda>(scaled_max, out_freq_scaled, r_div). 32 - unat r_div)")
  show "wf (measure (\<lambda>(scaled_max, out_freq_scaled, r_div). 32 - unat r_div))"
    by simp
next
  fix scaled_max out_freq_scaled :: u64 and r_div :: u8
  assume "0 < r_div \<and> r_div < 32 \<and> out_freq_scaled < scaled_max"
  then have r: "0 < unat r_div" "unat r_div < 32"
    by (simp_all add: word_less_nat_alt)
  then have "unat r_div * unat (2 :: u8) < 2 ^ LENGTH(8)"
    by simp
  then have "unat (r_div * 2) = unat r_div * unat (2 :: u8)"
    by (simp only: unat_mult_lem)
  then have "unat (push_bit 1 r_div) = 2 * unat r_div"
    by (simp add: push_bit_eq_mult)
  then show "((scaled_max, push_bit 1 out_freq_scaled, push_bit 1 r_div),
       (scaled_max, out_freq_scaled, r_div))
      \<in> measure (\<lambda>(scaled_max, out_freq_scaled, r_div). 32 - unat r_div)"
    using r by simp
qed

declare scale_loop.simps [simp del]

text \<open>
  \<^verbatim>\<open>si5338_clkout_round_rate\<close>: the flag is \<^verbatim>\<open>CLK_SET_RATE_PARENT\<close>, the result
  is the rate returned, the new \<^verbatim>\<open>*parent_rate\<close> and \<open>r_div\<close>.  In the second branch
  \<open>r_div\<close> is the \<^verbatim>\<open>u8\<close> of the C code; it never exceeds 32.
\<close>

definition si5338_clkout_round_rate :: "bool \<Rightarrow> u64 \<Rightarrow> u64 \<Rightarrow> int \<times> u64 \<times> u8" where
  "si5338_clkout_round_rate set_rate_parent rate parent_rate =
     (if set_rate_parent then
        (let scaled_max = FVCOMAX div MSINT_MAX;
             (out_freq_scaled, r_div) = scale_loop scaled_max rate 1;
             (r_div, parent_rate) =
               (if out_freq_scaled < scaled_max then (32, scaled_max)
                else (r_div, out_freq_scaled))
         in (sint (parent_rate div ucast r_div), parent_rate, r_div))
      else
        (let r_div = (word_of_int (r_div_loop rate parent_rate 1 div 2) :: u8)
         in (sint (parent_rate div ucast r_div), parent_rate, r_div)))"

section \<open>Bring-up: \<^verbatim>\<open>post_init\<close>\<close>

definition AWE_PFD_REF :: u32 where
  "AWE_PFD_REF = 0x1de0"

definition AWE_PFD_FB :: u32 where
  "AWE_PFD_FB = 0x1ee0"

definition AWE_PFD_EXTFB :: u32 where
  "AWE_PFD_EXTFB = 0x3080"

definition AWE_STATUS :: u32 where
  "AWE_STATUS = 0xdaff"

definition AWE_FCAL_OVRD_EN :: u32 where
  "AWE_FCAL_OVRD_EN = 0x3180"

definition AWE_SOFT_RESET :: u32 where
  "AWE_SOFT_RESET = 0xf602"

definition AWE_REG241 :: u32 where
  "AWE_REG241 = 0xf1ff"

definition AWE_REG47_72 :: u32 where
  "AWE_REG47_72 = 0x2ffc"

definition AWE_MS_RESET :: u32 where
  "AWE_MS_RESET = 0xe204"

definition AWE_OUT_ALL_DIS :: u32 where
  "AWE_OUT_ALL_DIS = 0xe610"

definition awe_fcal :: "u32 list" where
  "awe_fcal = [0xebff, 0xecff, 0xed03, 0]"

definition awe_fcal_ovrd :: "u32 list" where
  "awe_fcal_ovrd = [0x2dff, 0x2eff, 0x2f03, 0]"

definition awe_ms_powerdown :: "u32 list" where
  "awe_ms_powerdown = [0x1f02, 0x2002, 0x2102, 0x2202]"

definition INIT_TIMEOUT :: nat where
  "INIT_TIMEOUT = 10"

definition get_status :: "regmap \<Rightarrow> int \<times> regmap" where
  "get_status st = read_field st AWE_STATUS"

definition get_in_pfd_ref_fb :: "regmap \<Rightarrow> int \<Rightarrow> int \<times> regmap" where
  "get_in_pfd_ref_fb st chn = read_field st (if chn \<noteq> 0 then AWE_PFD_FB else AWE_PFD_REF)"

definition get_out_mux :: "regmap \<Rightarrow> int \<Rightarrow> int \<times> regmap" where
  "get_out_mux st chn =
     (if verify_output_channel chn < 0 then (verify_output_channel chn, st)
      else read_field st (awe_rdiv_in ! nat chn))"

definition set_ms_powerdown :: "regmap \<Rightarrow> u8 \<Rightarrow> int \<Rightarrow> int \<times> regmap" where
  "set_ms_powerdown st down chn =
     (if chn < 0 \<or> 3 < chn then (- EINVAL, st)
      else write_field st down (awe_ms_powerdown ! nat chn))"

text \<open>
  \<^verbatim>\<open>power_up_down_needed_ms\<close>: its two \<^verbatim>\<open>for\<close> loops over the channels, and the
  function.  \<^verbatim>\<open>MS_POWER_UP\<close> is 0, \<^verbatim>\<open>MS_POWER_DOWN\<close> is 1.
\<close>

fun ms_used_loop :: "regmap \<Rightarrow> int list \<Rightarrow> int \<Rightarrow> (int \<times> int) \<times> regmap" where
  "ms_used_loop st [] ms_used = ((0, ms_used), st)"
| "ms_used_loop st (chn # chns) ms_used =
     (case get_out_mux st chn of (out_src, st') \<Rightarrow>
        if out_src < 0 then ((out_src, ms_used), st')
        else ms_used_loop st' chns
               (if out_src = 5 then ms_used OR 1
                else if out_src = 6 then ms_used OR push_bit (nat chn) 1
                else ms_used))"

fun ms_power_loop :: "regmap \<Rightarrow> int list \<Rightarrow> int \<Rightarrow> int \<times> regmap" where
  "ms_power_loop st [] ms_used = (0, st)"
| "ms_power_loop st (chn # chns) ms_used =
     (case set_ms_powerdown st (if ms_used AND push_bit (nat chn) 1 \<noteq> 0 then 0 else 1) chn of
        (rc, st') \<Rightarrow> if rc < 0 then (rc, st') else ms_power_loop st' chns ms_used)"

definition power_up_down_needed_ms :: "regmap \<Rightarrow> int \<times> regmap" where
  "power_up_down_needed_ms st =
     (case ms_used_loop st [0, 1, 2, 3] 0 of ((rc, ms_used), st') \<Rightarrow>
        if rc < 0 then (rc, st') else ms_power_loop st' [0, 1, 2, 3] ms_used)"

definition reset_ms :: "regmap \<Rightarrow> int \<times> regmap" where
  "reset_ms st =
     (case write_field st 1 AWE_MS_RESET of (rc, st) \<Rightarrow>
      if rc \<noteq> 0 then (rc, st)
      else
        (case write_field (msleep st 20) 0 AWE_MS_RESET of (rc, st) \<Rightarrow>
         if rc \<noteq> 0 then (rc, st) else (0, st)))"

text \<open>
  The selector values of \<^verbatim>\<open><dt-bindings/clock/clk-si5338.h>\<close>, a header that is not
  among the sources.  The reference side follows \<^verbatim>\<open>si5338_pll_src_names[]\<close>
  (refclk, fbclk, divrefclk, divfbclk, xtal, noclk); the feedback side swaps the
  roles of the two inputs.  The theorems on \<^verbatim>\<open>post_init\<close> hold for whatever mask
  these values give.
\<close>

definition SI5338_PFD_IN_REF_REFCLK :: int where
  "SI5338_PFD_IN_REF_REFCLK = 0"

definition SI5338_PFD_IN_REF_FBCLK :: int where
  "SI5338_PFD_IN_REF_FBCLK = 1"

definition SI5338_PFD_IN_REF_DIVREFCLK :: int where
  "SI5338_PFD_IN_REF_DIVREFCLK = 2"

definition SI5338_PFD_IN_REF_DIVFBCLK :: int where
  "SI5338_PFD_IN_REF_DIVFBCLK = 3"

definition SI5338_PFD_IN_REF_XOCLK :: int where
  "SI5338_PFD_IN_REF_XOCLK = 4"

definition SI5338_PFD_IN_FB_FBCLK :: int where
  "SI5338_PFD_IN_FB_FBCLK = 0"

definition SI5338_PFD_IN_FB_REFCLK :: int where
  "SI5338_PFD_IN_FB_REFCLK = 1"

definition SI5338_PFD_IN_FB_DIVFBCLK :: int where
  "SI5338_PFD_IN_FB_DIVFBCLK = 2"

definition SI5338_PFD_IN_FB_DIVREFCLK :: int where
  "SI5338_PFD_IN_FB_DIVREFCLK = 3"

definition AWE_STATUS_PLL_LOL :: int where
  "AWE_STATUS_PLL_LOL = 0xda10"

definition AWE_STATUS_PLL_LOS_FDBK :: int where
  "AWE_STATUS_PLL_LOS_FDBK = 0xda08"

definition AWE_STATUS_PLL_LOS_CLKIN :: int where
  "AWE_STATUS_PLL_LOS_CLKIN = 0xda04"

definition AWE_STATUS_PLL_SYS_CAL :: int where
  "AWE_STATUS_PLL_SYS_CAL = 0xda01"

text \<open>
  The first part of \<^verbatim>\<open>post_init\<close>, "validate input clock status" up to
  \<^verbatim>\<open>check_los &= 0xf\<close>: the return code (negative where the C code returns early)
  and \<open>check_los\<close>.  The second \<^verbatim>\<open>switch\<close> tests \<open>in_src\<close>, as the C code does.
\<close>

definition post_init_inputs :: "regmap \<Rightarrow> (int \<times> int) \<times> regmap" where
  "post_init_inputs st =
     (case get_in_pfd_ref_fb st 0 of (in_src, st) \<Rightarrow>
      if in_src < 0 then ((in_src, 0), st)
      else
        (let check_los =
               (if in_src = SI5338_PFD_IN_REF_REFCLK \<or> in_src = SI5338_PFD_IN_REF_DIVREFCLK \<or>
                   in_src = SI5338_PFD_IN_REF_XOCLK
                then 0 OR AWE_STATUS_PLL_LOS_CLKIN
                else if in_src = SI5338_PFD_IN_REF_FBCLK \<or> in_src = SI5338_PFD_IN_REF_DIVFBCLK
                then 0 OR AWE_STATUS_PLL_LOS_FDBK
                else 0)
         in case read_field st AWE_PFD_EXTFB of (ext_fb, st) \<Rightarrow>
            if ext_fb < 0 then ((ext_fb, check_los), st)
            else if ext_fb \<noteq> 0 then
              (case get_in_pfd_ref_fb st 1 of (fb_src, st) \<Rightarrow>
               if fb_src < 0 then ((fb_src, check_los), st)
               else
                 (let check_los =
                        (if in_src = SI5338_PFD_IN_FB_REFCLK \<or> in_src = SI5338_PFD_IN_FB_DIVREFCLK
                         then check_los OR AWE_STATUS_PLL_LOS_CLKIN
                         else if in_src = SI5338_PFD_IN_FB_FBCLK \<or>
                                 in_src = SI5338_PFD_IN_FB_DIVFBCLK
                         then check_los OR AWE_STATUS_PLL_LOS_FDBK
                         else check_los)
                  in ((0, check_los AND 0xf), st)))
            else ((0, check_los AND 0xf), st)))"

text \<open>
  The polling loop, which \<^verbatim>\<open>post_init\<close> has twice:
  \<^verbatim>\<open>for (i = 0; i < timeout; i++) { rc = get_status(drvdata); if (rc < 0) return rc;
  if (!(rc & check_los)) break; msleep(100); }\<close>
  The result is \<open>rc\<close> and \<open>i\<close> at the exit; \<open>rc\<close> is negative exactly where the C
  code returns from inside the loop.
\<close>

function status_loop :: "regmap \<Rightarrow> int \<Rightarrow> nat \<Rightarrow> nat \<Rightarrow> int \<Rightarrow> (int \<times> nat) \<times> regmap" where
  "status_loop st check_los timeout i rc =
     (if i < timeout then
        (case get_status st of (rc', st') \<Rightarrow>
           if rc' < 0 then ((rc', i), st')
           else if rc' AND check_los = 0 then ((rc', i), st')
           else status_loop (msleep st' 100) check_los timeout (Suc i) rc')
      else ((rc, i), st))"
  by pat_completeness auto
termination
  by (relation "measure (\<lambda>(st, check_los, timeout, i, rc). timeout - i)") auto

declare status_loop.simps [simp del]

text \<open>
  \<^verbatim>\<open>post_init\<close> between the two loops: "Configure PLL for locking" up to
  "re-enable LOL".  The result of the soft reset write is ignored.
\<close>

definition post_init_lock :: "regmap \<Rightarrow> int \<times> regmap" where
  "post_init_lock st =
     (case write_field st 0 AWE_FCAL_OVRD_EN of (rc, st) \<Rightarrow>
      if rc < 0 then (rc, st)
      else
        (case write_field st 1 AWE_SOFT_RESET of (ignored, st) \<Rightarrow>
         case write_field (msleep st 25) 0x65 AWE_REG241 of (rc, st) \<Rightarrow>
         if rc < 0 then (rc, st) else (rc, st)))"

text \<open>\<^verbatim>\<open>post_init\<close> after the second loop: "copy FCAL values" to the end.\<close>

definition post_init_finish :: "regmap \<Rightarrow> int \<times> regmap" where
  "post_init_finish st =
     (case read_multireg64 st awe_fcal of ((rc, fcal), st) \<Rightarrow>
      if rc \<noteq> 0 then (rc, st)
      else
        (case write_multireg64 st fcal awe_fcal_ovrd of (rc, st) \<Rightarrow>
         if rc \<noteq> 0 then (rc, st)
         else
           (case write_field st 5 AWE_REG47_72 of (rc, st) \<Rightarrow>
            if rc \<noteq> 0 then (rc, st)
            else
              (case write_field st 1 AWE_FCAL_OVRD_EN of (rc, st) \<Rightarrow>
               if rc \<noteq> 0 then (rc, st)
               else
                 (case reset_ms st of (rc, st) \<Rightarrow>
                  if rc \<noteq> 0 then (rc, st)
                  else
                    (case write_field st 0 AWE_OUT_ALL_DIS of (rc, st) \<Rightarrow>
                     if rc \<noteq> 0 then (rc, st)
                     else
                       (case write_field st 0 AWE_SOFT_RESET of (ignored, st) \<Rightarrow>
                        case power_up_down_needed_ms st of (rc, st) \<Rightarrow>
                        if rc \<noteq> 0 then (rc, st) else (0, st))))))))"

definition post_init :: "regmap \<Rightarrow> int \<times> regmap" where
  "post_init st =
     (case post_init_inputs st of ((rc, check_los), st) \<Rightarrow>
      if rc < 0 then (rc, st)
      else
        (case status_loop st check_los INIT_TIMEOUT 0 rc of ((rc, i), st) \<Rightarrow>
         if rc < 0 then (rc, st)
         else if INIT_TIMEOUT \<le> i then (- ETIMEDOUT, st)
         else
           (case post_init_lock st of (rc, st) \<Rightarrow>
            if rc < 0 then (rc, st)
            else
              (let check_los =
                     (check_los OR (AWE_STATUS_PLL_LOL OR AWE_STATUS_PLL_SYS_CAL)) AND 0xf
               in case status_loop st check_los INIT_TIMEOUT 0 rc of ((rc, i), st) \<Rightarrow>
                  if rc < 0 then (rc, st)
                  else if INIT_TIMEOUT \<le> i then (- ETIMEDOUT, st)
                  else post_init_finish st))))"

text \<open>The reads of the status register and the polling delays in a trace.\<close>

definition status_reads :: "event list \<Rightarrow> nat" where
  "status_reads tr = length (filter (\<lambda>e. e = Read 0xda) tr)"

definition poll_sleeps :: "event list \<Rightarrow> nat" where
  "poll_sleeps tr = length (filter (\<lambda>e. e = Sleep 100) tr)"

section \<open>Notions used in the statements\<close>

text \<open>The word \<open>0xAAAMM\<close> of a register address and a mask.\<close>

definition awe_of :: "u16 \<Rightarrow> u8 \<Rightarrow> u32" where
  "awe_of reg msk = push_bit 8 (ucast reg) OR ucast msk"

text \<open>
  A register map with every register 0, no scripted chip value and no fault; the
  uninitialised local holds \<open>0xff\<close>.
\<close>

definition blank_regmap :: regmap where
  "blank_regmap =
     \<lparr>regs = (\<lambda>reg. 0), chip = [], faults = [], trace = [], stale = (\<lambda>n. 0xff)\<rparr>"

text \<open>A node whose parameters are not valid yet.\<close>

definition fresh_hw_data :: "u8 \<Rightarrow> si5338_hw_data" where
  "fresh_hw_data n = \<lparr>params = \<lparr>p = (0, 0, 0), valid = False\<rparr>, num = n\<rparr>"

section \<open>Lemmas on the rational arithmetic\<close>

lemma u64_mult:
  fixes x y :: u64
  shows "unat x * unat y < 2 ^ 64 \<Longrightarrow> unat (x * y) = unat x * unat y"
  using unat_mult_lem [of x y] by simp

lemma u64_add:
  fixes x y :: u64
  shows "unat x + unat y < 2 ^ 64 \<Longrightarrow> unat (x + y) = unat x + unat y"
  using unat_add_lem [of x y] by simp

lemma u32_add:
  fixes x y :: u32
  shows "unat x + unat y < 2 ^ 32 \<Longrightarrow> unat (x + y) = unat x + unat y"
  using unat_add_lem [of x y] by simp

lemma unat_push_bit7:
  fixes x :: u64
  assumes "unat x * 128 < 2 ^ 64"
  shows "unat (push_bit 7 x) = unat x * 128"
proof -
  have "unat x * unat (128 :: u64) < 2 ^ LENGTH(64)"
    using assms by simp
  then have "unat (x * 128) = unat x * unat (128 :: u64)"
    by (simp only: unat_mult_lem)
  then show ?thesis
    by (simp add: push_bit_eq_mult)
qed

lemma unat_ucast_u32:
  fixes x :: u64
  assumes "unat x < 2 ^ 32"
  shows "unat (ucast x :: u32) = unat x"
  using assms by (simp add: unsigned_ucast_eq take_bit_nat_eq_self)

lemma unat_ucast_u64:
  fixes x :: u32
  shows "unat (ucast x :: u64) = unat x"
proof -
  have "unat x < 2 ^ 32"
    using unsigned_less [of x] by simp
  then have "unat x < (2 :: nat) ^ 64"
    by (rule less_trans) simp
  then show ?thesis
    by (simp add: unsigned_ucast_eq take_bit_nat_eq_self)
qed

lemma nat_div_aux:
  fixes A D N :: nat
  assumes "0 < D"
  shows "(A * D + N) * 128 div D = A * 128 + N * 128 div D"
proof -
  have "(A * D + N) * 128 = D * (A * 128) + N * 128"
    by (simp add: algebra_simps)
  then have "(A * D + N) * 128 div D = (D * (A * 128) + N * 128) div D"
    by (rule arg_cong)
  also have "\<dots> = A * 128 + N * 128 div D"
    using assms by (intro div_mult_self4) simp
  finally show ?thesis .
qed

lemma ms_to_p_params_unat:
  fixes a D N :: u64
  assumes D0: "0 < unat D" and D30: "unat D < 2 ^ 30" and ND: "unat N \<le> unat D"
    and N0: "N = 0 \<Longrightarrow> D = 1" and a4: "4 \<le> unat a" and a25: "unat a < 2 ^ 25 + 4"
    and fit: "unat a * 128 + unat N * 128 div unat D < 2 ^ 32 + 512"
  shows "ms_to_p_params a D N = (p0, p1, p2) \<Longrightarrow>
           unat p0 = unat a * 128 + unat N * 128 div unat D - 512 \<and>
           unat p1 = unat N * 128 mod unat D \<and> unat p2 = unat D"
proof -
  assume eq: "ms_to_p_params a D N = (p0, p1, p2)"
  have Dn0: "D \<noteq> 0"
    using D0 by (auto simp: unat_eq_0)
  have "unat a * unat D < (2 ^ 25 + 4) * 2 ^ 30"
    using a25 D30 D0 by (intro mult_strict_mono) simp_all
  then have aD: "unat a * unat D < 2 ^ 56"
    by simp
  then have "unat a * unat D < 2 ^ LENGTH(64)"
    by simp
  then have u1: "unat (a * D) = unat a * unat D"
    by (simp only: unat_mult_lem)
  have "unat (a * D) + unat N < 2 ^ LENGTH(64)"
    using aD ND D30 by (simp add: u1)
  then have "unat (a * D + N) = unat (a * D) + unat N"
    by (simp only: unat_add_lem)
  then have u2: "unat (a * D + N) = unat a * unat D + unat N"
    by (simp only: u1)
  have u3: "unat (push_bit 7 (a * D + N)) = (unat a * unat D + unat N) * 128"
    using aD ND D30 by (subst unat_push_bit7) (simp_all add: u2)
  have q: "(unat a * unat D + unat N) * 128 div unat D = unat a * 128 + unat N * 128 div unat D"
    using D0 by (rule nat_div_aux)
  have u4: "unat (push_bit 7 (a * D + N) div D) = unat a * 128 + unat N * 128 div unat D"
    by (simp only: unat_div u3 q)
  have "unat (512 :: u64) \<le> unat (push_bit 7 (a * D + N) div D)"
    using a4 by (simp add: u4)
  then have "(512 :: u64) \<le> push_bit 7 (a * D + N) div D"
    by (simp only: word_le_nat_alt)
  then have u5: "unat (push_bit 7 (a * D + N) div D - 512) = unat a * 128 + unat N * 128 div unat D - 512"
    by (simp add: unat_sub u4)
  have u6: "unat (ucast (push_bit 7 (a * D + N) div D - 512) :: u32) =
              unat a * 128 + unat N * 128 div unat D - 512"
    using fit a4 by (subst unat_ucast_u32) (simp_all add: u5)
  have n7: "unat (push_bit 7 N) = unat N * 128"
    using ND D30 by (subst unat_push_bit7) simp_all
  have "push_bit 7 N - push_bit 7 N div D * D = push_bit 7 N mod D"
    by (simp add: minus_div_mult_eq_mod)
  then have u7: "unat (push_bit 7 N - push_bit 7 N div D * D) = unat N * 128 mod unat D"
    by (simp add: unat_mod n7)
  have "unat N * 128 mod unat D < unat D"
    using D0 by simp
  then have u8: "unat (ucast (push_bit 7 N - push_bit 7 N div D * D) :: u32) = unat N * 128 mod unat D"
    using D30 by (subst unat_ucast_u32) (simp_all add: u7)
  have u9: "unat (ucast D :: u32) = unat D"
    using D30 by (subst unat_ucast_u32) simp_all
  have "(if N = 0 \<or> D = 0 then 1 else D) = D" and "(if N = 0 \<or> D = 0 then 0 else N) = N"
    using N0 Dn0 by auto
  with eq show ?thesis
    by (auto simp: ms_to_p_params_def Let_def u6 u8 u9)
qed


lemma and_0x7f_mod:
  fixes x :: u32
  shows "unat (x AND 0x7f) = unat x mod 128"
proof -
  have "(0x7f :: u32) = mask 7"
    by (simp add: mask_eq_exp_minus_1)
  then have "x AND 0x7f = take_bit 7 x"
    by (simp add: take_bit_eq_mask)
  then show ?thesis
    by (simp add: unsigned_take_bit_eq take_bit_eq_mod unat_mod)
qed

lemma p_to_ms_unat:
  fixes p0 p1 p2 :: u32
  assumes nz: "\<not> (p0 = 0 \<and> p1 = 0 \<and> p2 = 0)"
    and eq: "p_to_ms (p0, p1, p2) = (m0, m1, m2)"
  shows "unat m0 = unat p0 div 128 + 4 \<and>
         unat m1 = (unat p2 * (unat p0 mod 128) + unat p1) div 128 \<and>
         unat m2 = unat p2"
proof -
  have b0: "unat p0 < 2 ^ 32" and b1: "unat p1 < 2 ^ 32" and b2: "unat p2 < 2 ^ 32"
    using unsigned_less [of p0] unsigned_less [of p1] unsigned_less [of p2] by simp_all
  have "unat (drop_bit 7 p0) + unat (4 :: u32) < 2 ^ 32"
    using b0 by (simp add: unat_drop_bit_eq drop_bit_eq_div unat_div)
  then have "unat (drop_bit 7 p0 + 4) = unat (drop_bit 7 p0) + unat (4 :: u32)"
    by (rule u32_add)
  then have m0: "unat (drop_bit 7 p0 + 4) = unat p0 div 128 + 4"
    by (simp add: unat_drop_bit_eq drop_bit_eq_div unat_div)
  have k: "unat (ucast (p0 AND 0x7f) :: u64) = unat p0 mod 128"
    by (simp only: unat_ucast_u64 and_0x7f_mod)
  have "unat p2 * (unat p0 mod 128) < 2 ^ 32 * 128"
    using b2 by (intro mult_strict_mono) simp_all
  then have prod: "unat p2 * (unat p0 mod 128) < 2 ^ 39"
    by simp
  then have "unat (ucast p2 :: u64) * unat (ucast (p0 AND 0x7f) :: u64) < 2 ^ 64"
    by (simp add: unat_ucast_u64 and_0x7f_mod)
  then have "unat ((ucast p2 :: u64) * ucast (p0 AND 0x7f)) =
      unat (ucast p2 :: u64) * unat (ucast (p0 AND 0x7f) :: u64)"
    by (rule u64_mult)
  then have m: "unat ((ucast p2 :: u64) * ucast (p0 AND 0x7f)) = unat p2 * (unat p0 mod 128)"
    by (simp only: unat_ucast_u64 and_0x7f_mod)
  have "unat ((ucast p2 :: u64) * ucast (p0 AND 0x7f)) + unat (ucast p1 :: u64) < 2 ^ 64"
    using prod b1 by (simp add: m unat_ucast_u64)
  then have "unat ((ucast p2 :: u64) * ucast (p0 AND 0x7f) + ucast p1) =
      unat ((ucast p2 :: u64) * ucast (p0 AND 0x7f)) + unat (ucast p1 :: u64)"
    by (rule u64_add)
  then have m1: "unat (drop_bit 7 ((ucast p2 :: u64) * ucast (p0 AND 0x7f) + ucast p1)) =
      (unat p2 * (unat p0 mod 128) + unat p1) div 128"
    by (simp add: unat_drop_bit_eq drop_bit_eq_div unat_div m unat_ucast_u64)
  from eq nz have "m0 = ucast (drop_bit 7 p0 + 4)"
    and "m1 = drop_bit 7 ((ucast p2 :: u64) * ucast (p0 AND 0x7f) + ucast p1)"
    and "m2 = ucast p2"
    by (auto simp: p_to_ms_def Let_def)
  then show ?thesis
    by (simp only: m0 m1 unat_ucast_u64)
qed

lemma nat_decode_aux:
  fixes D N :: nat
  assumes "0 < D"
  shows "(D * (N * 128 div D) + N * 128 mod D) div 128 = N"
  by simp

lemma ms_roundtrip_params:
  fixes a D N :: u64
  assumes a4: "4 \<le> unat a" and a25: "unat a < 2 ^ 25 + 4"
    and D0: "0 < unat D" and D30: "unat D < 2 ^ 30" and ND: "unat N < unat D" and N0: "N \<noteq> 0"
  shows "p_to_ms (ms_to_p_params a D N) = (a, N, D)"
proof -
  obtain p0 p1 p2 where p: "ms_to_p_params a D N = (p0, p1, p2)"
    by (cases "ms_to_p_params a D N") auto
  obtain m0 m1 m2 where m: "p_to_ms (p0, p1, p2) = (m0, m1, m2)"
    by (cases "p_to_ms (p0, p1, p2)") auto
  have k: "unat N * 128 div unat D < 128"
    using ND D0 by (simp add: less_mult_imp_div_less)
  have fit: "unat a * 128 + unat N * 128 div unat D < 2 ^ 32 + 512"
    using a25 k by simp
  from ms_to_p_params_unat [OF D0 D30 _ _ a4 a25 fit p] ND N0
  have u0: "unat p0 = unat a * 128 + unat N * 128 div unat D - 512"
    and u1: "unat p1 = unat N * 128 mod unat D" and u2: "unat p2 = unat D"
    by simp_all
  have "unat p2 \<noteq> 0"
    using u2 D0 by simp
  then have nz: "\<not> (p0 = 0 \<and> p1 = 0 \<and> p2 = 0)"
    by auto
  have e: "unat p0 = (unat a - 4) * 128 + unat N * 128 div unat D"
    using u0 a4 by (simp add: algebra_simps)
  have q: "unat p0 div 128 = unat a - 4"
    using k by (simp add: e)
  have r: "unat p0 mod 128 = unat N * 128 div unat D"
    using k by (simp add: e)
  from p_to_ms_unat [OF nz m]
  have "unat m0 = unat a" and "unat m1 = unat N" and "unat m2 = unat D"
    using a4 D0 by (simp_all add: q r u1 u2)
  then have "m0 = a" "m1 = N" "m2 = D"
    by (simp_all add: word_unat_eq_iff)
  then show ?thesis
    by (simp add: p m)
qed


lemma ms_roundtrip_params_zero:
  fixes a D :: u64
  assumes a4: "4 \<le> unat a" and a25: "unat a < 2 ^ 25 + 4"
  shows "p_to_ms (ms_to_p_params a D 0) = (a, 0, 1)"
proof -
  have same: "ms_to_p_params a D 0 = ms_to_p_params a 1 0"
    by (simp add: ms_to_p_params_def)
  obtain p0 p1 p2 where p: "ms_to_p_params a 1 0 = (p0, p1, p2)"
    by (cases "ms_to_p_params a 1 0") auto
  obtain m0 m1 m2 where m: "p_to_ms (p0, p1, p2) = (m0, m1, m2)"
    by (cases "p_to_ms (p0, p1, p2)") auto
  have fit: "unat a * 128 + unat (0 :: u64) * 128 div unat (1 :: u64) < 2 ^ 32 + 512"
    using a25 by simp
  from ms_to_p_params_unat [OF _ _ _ _ a4 a25 fit p]
  have u0: "unat p0 = unat a * 128 - 512" and u1: "unat p1 = 0" and u2: "unat p2 = 1"
    by simp_all
  have nz: "\<not> (p0 = 0 \<and> p1 = 0 \<and> p2 = 0)"
    using u2 by auto
  have e: "unat p0 = (unat a - 4) * 128"
    using u0 a4 by (simp add: algebra_simps)
  from p_to_ms_unat [OF nz m]
  have "unat m0 = unat a" and "unat m1 = 0" and "unat m2 = 1"
    using a4 by (simp_all add: e u1 u2)
  then have "m0 = a" "m1 = 0" "m2 = 1"
    by (simp_all add: word_unat_eq_iff)
  then show ?thesis
    by (simp add: same p m)
qed

lemma even_unat_u64:
  fixes d :: u64
  shows "even (unat d) = even d"
proof -
  have "even d = (d mod 2 = 0)"
    by (simp add: even_iff_mod_2_eq_zero)
  also have "\<dots> = (unat (d mod 2) = 0)"
    by (simp only: unat_eq_0)
  also have "\<dots> = (unat d mod 2 = 0)"
    by (simp add: unat_mod)
  finally show ?thesis
    by (simp add: even_iff_mod_2_eq_zero)
qed

lemma or_and_1_eq_0_iff:
  fixes d n :: u64
  shows "((d OR n) AND 1 = 0) = (even (unat d) \<and> even (unat n))"
  by (simp add: even_unat_u64 and_one_eq even_iff_mod_2_eq_zero [symmetric] even_or_iff)

lemma unat_shr1:
  fixes x :: u64
  shows "unat (drop_bit 1 x) = unat x div 2"
  by (simp add: unat_drop_bit_eq drop_bit_eq_div unat_div)

lemma ms_to_p_loop_exit:
  fixes d n :: u64
  assumes "unat d < 2 ^ 30" and "odd (unat d) \<or> odd (unat n)"
  shows "ms_to_p_loop d n = Some (d, n)"
proof -
  have "\<not> 2 ^ 30 \<le> d"
    using assms(1) by (simp add: word_le_nat_alt)
  moreover have "(d OR n) AND 1 \<noteq> 0"
    using assms(2) by (simp add: or_and_1_eq_0_iff)
  ultimately show ?thesis
    by (subst ms_to_p_loop.simps) simp
qed

lemma ms_to_p_loop_spec:
  fixes d n :: u64
  assumes "d \<noteq> 0"
  shows "\<exists>d' n'. ms_to_p_loop d n = Some (d', n') \<and> d' \<noteq> 0 \<and> unat d' < 2 ^ 30 \<and>
           unat d' \<le> unat d \<and> (unat n \<le> unat d \<longrightarrow> unat n' \<le> unat d')"
  using assms
proof (induction "unat d" arbitrary: d n rule: less_induct)
  case less
  show ?case
  proof (cases "2 ^ 30 \<le> d \<or> (d OR n) AND 1 = 0")
    case True
    have two: "2 \<le> unat d"
    proof (cases "2 ^ 30 \<le> d")
      case True
      then have "2 ^ 30 \<le> unat d"
        by (simp add: word_le_nat_alt)
      then show ?thesis
        by simp
    next
      case False
      with True have "even (unat d)"
        by (simp add: or_and_1_eq_0_iff)
      moreover have "unat d \<noteq> 0"
        using less.prems by (simp add: unat_eq_0)
      ultimately show ?thesis
        by presburger
    qed
    have h: "unat (drop_bit 1 d) = unat d div 2" "unat (drop_bit 1 n) = unat n div 2"
      by (rule unat_shr1)+
    have lt: "unat (drop_bit 1 d) < unat d"
      using two unfolding h by simp
    have "unat (drop_bit 1 d) \<noteq> 0"
      using two unfolding h by simp
    then have nz: "drop_bit 1 d \<noteq> 0"
      by (simp only: unat_eq_0 not_False_eq_True)
    from less.hyps [OF lt nz, of "drop_bit 1 n"]
    obtain d' n' where r: "ms_to_p_loop (drop_bit 1 d) (drop_bit 1 n) = Some (d', n')"
      and p: "d' \<noteq> 0" "unat d' < 2 ^ 30" "unat d' \<le> unat (drop_bit 1 d)"
        "unat (drop_bit 1 n) \<le> unat (drop_bit 1 d) \<longrightarrow> unat n' \<le> unat d'"
      by blast
    have "ms_to_p_loop d n = Some (d', n')"
      using True r by (subst ms_to_p_loop.simps) simp
    moreover have "unat d' \<le> unat d"
      using p(3) unfolding h by simp
    moreover have "unat n \<le> unat d \<longrightarrow> unat n' \<le> unat d'"
      using p(4) unfolding h by (simp add: div_le_mono)
    ultimately show ?thesis
      using p(1,2) by blast
  next
    case False
    then have "ms_to_p_loop d n = Some (d, n)"
      by (subst ms_to_p_loop.simps) simp
    moreover have "unat d < 2 ^ 30"
      using False by (simp add: word_le_nat_alt)
    ultimately show ?thesis
      using less.prems by simp
  qed
qed

lemma step_rec:
  fixes n d a b :: u64
  assumes "1 < b" and "a mod b \<noteq> 0"
  shows "rcf_loop n d a b = rcf_loop n d b (a mod b)"
proof -
  have r: "a - b * (a div b) = a mod b"
    by (simp add: minus_mult_div_eq_mod)
  show ?thesis
    by (subst rcf_loop.simps) (simp only: assms r Let_def if_True if_False)
qed

lemma step_zero:
  fixes n d a b :: u64
  assumes "1 < b" and "a mod b = 0"
  shows "rcf_loop n d a b = (1, n div b, d div b)"
proof -
  have r: "a - b * (a div b) = a mod b"
    by (simp add: minus_mult_div_eq_mod)
  show ?thesis
    by (subst rcf_loop.simps) (simp only: assms r Let_def simp_thms if_True if_False)
qed

lemma step_exit:
  fixes n d a b :: u64
  assumes "\<not> 1 < b"
  shows "rcf_loop n d a b = (0, n, d)"
  by (subst rcf_loop.simps) (simp only: assms if_False)


lemma rcf_loop_spec:
  fixes n d a b :: u64
  assumes "b \<noteq> 0" and "gcd (unat a) (unat b) = gcd (unat n) (unat d)"
    and "rcf_loop n d a b = (rc, n', d')"
  shows "unat n' = unat n div gcd (unat n) (unat d) \<and>
         unat d' = unat d div gcd (unat n) (unat d)"
  using assms
proof (induction n d a b rule: rcf_loop.induct)
  case (1 n d a b)
  let ?g = "gcd (unat n) (unat d)"
  have r: "a - b * (a div b) = a mod b"
    by (simp add: minus_mult_div_eq_mod)
  show ?case
  proof (cases "1 < b")
    case False
    then have "unat b \<le> 1"
      by (simp add: word_less_nat_alt not_less)
    moreover have "unat b \<noteq> 0"
      using "1.prems"(1) by (simp add: unat_eq_0)
    ultimately have "unat b = 1"
      by simp
    then have "?g = 1"
      using "1.prems"(2) by simp
    moreover have "(rc, n', d') = (0, n, d)"
      using "1.prems"(3) step_exit [OF False, of n d a] by simp
    ultimately show ?thesis
      by simp
  next
    case True
    show ?thesis
    proof (cases "a mod b = 0")
      case z: True
      then have "unat a mod unat b = 0"
        by (simp add: word_unat_eq_iff unat_mod)
      then have "unat b dvd unat a"
        by (simp only: mod_eq_0_iff_dvd)
      then have "gcd (unat a) (unat b) = unat b"
        by (rule gcd_proj2_if_dvd_nat)
      then have g: "?g = unat b"
        using "1.prems"(2) by simp
      have "(rc, n', d') = (1, n div b, d div b)"
        using "1.prems"(3) step_zero [OF True z, of n d] by simp
      then show ?thesis
        by (simp add: g unat_div)
    next
      case nz: False
      have rec: "rcf_loop n d b (a mod b) = (rc, n', d')"
        using "1.prems"(3) step_rec [OF True nz, of n d] by simp
      have "gcd (unat a) (unat b) = gcd (unat b) (unat a mod unat b)"
        by (rule gcd_red_nat)
      then have g: "gcd (unat b) (unat (a mod b)) = ?g"
        using "1.prems"(2) by (simp only: unat_mod)
      have nz': "a - b * (a div b) \<noteq> 0"
        using nz by (simp only: r not_False_eq_True)
      have g': "gcd (unat b) (unat (a - b * (a div b))) = ?g"
        using g by (simp only: r)
      have rec': "rcf_loop n d b (a - b * (a div b)) = (rc, n', d')"
        using rec by (simp only: r)
      from "1.IH" [OF True refl nz' nz' g' rec'] show ?thesis .
    qed
  qed
qed

lemma remove_common_factor_spec:
  fixes n d :: u64
  assumes "d \<noteq> 0" and "remove_common_factor (n, d) = (rc, n', d')"
  shows "unat n' = unat n div gcd (unat n) (unat d) \<and>
         unat d' = unat d div gcd (unat n) (unat d)"
proof (cases "n = 0")
  case True
  then have "n' = 0" "d' = 1"
    using assms by (simp_all add: remove_common_factor_def)
  moreover have "0 < unat d"
    using assms(1) by (simp add: unat_gt_0)
  ultimately show ?thesis
    using True by simp
next
  case False
  then have rec: "rcf_loop n d (max n d) (min n d) = (rc, n', d')"
    using assms by (simp add: remove_common_factor_def)
  have "min n d \<noteq> 0"
    using False assms(1) by (simp add: min_def)
  moreover have "gcd (unat (max n d)) (unat (min n d)) = gcd (unat n) (unat d)"
    by (simp add: max_def min_def gcd.commute)
  ultimately show ?thesis
    using rec by (rule rcf_loop_spec)
qed

lemma nat_reduced_props:
  fixes N D :: nat
  assumes "0 < D"
  defines "g \<equiv> gcd N D"
  shows "0 < D div g" and "D div g \<le> D" and "N < D \<Longrightarrow> N div g < D div g"
    and "odd (N div g) \<or> odd (D div g)" and "N div g = 0 \<Longrightarrow> D div g = 1"
proof -
  have g0: "0 < g"
    using assms by simp
  have gD: "g dvd D" and gN: "g dvd N"
    by (simp_all add: g_def)
  have gle: "g \<le> D"
    using gD assms(1) by (simp add: dvd_imp_le)
  show "0 < D div g"
    using g0 gle by (simp add: div_greater_zero_iff)
  show "D div g \<le> D"
    by simp
  show "N div g < D div g" if "N < D"
  proof -
    have "g * (N div g) < g * (D div g)"
      using that gD gN by simp
    then show ?thesis
      using g0 by simp
  qed
  have "coprime (N div g) (D div g)"
    unfolding g_def using assms(1) by (intro div_gcd_coprime) simp
  then show "odd (N div g) \<or> odd (D div g)"
    by (auto dest: coprime_common_divisor_nat)
  show "D div g = 1" if "N div g = 0"
  proof -
    have "N = g * (N div g)"
      using gN by simp
    then have "N = 0"
      using that by simp
    then have "g = D"
      by (simp add: g_def)
    then show ?thesis
      using assms(1) by simp
  qed
qed

lemma remove_common_factor_props:
  fixes n d :: u64
  assumes d: "d \<noteq> 0" and eq: "remove_common_factor (n, d) = (rc, n', d')"
  shows "d' \<noteq> 0" and "unat d' \<le> unat d" and "unat n < unat d \<Longrightarrow> unat n' < unat d'"
    and "odd (unat n') \<or> odd (unat d')" and "n' = 0 \<Longrightarrow> d' = 1"
proof -
  have D: "0 < unat d"
    using d by (simp add: unat_gt_0)
  from remove_common_factor_spec [OF d eq]
  have n': "unat n' = unat n div gcd (unat n) (unat d)"
    and d': "unat d' = unat d div gcd (unat n) (unat d)"
    by simp_all
  from nat_reduced_props(1) [OF D, of "unat n"] have "unat d' \<noteq> 0"
    by (simp add: d')
  then show "d' \<noteq> 0"
    by (simp only: unat_eq_0 not_False_eq_True)
  from nat_reduced_props(2) [OF D, of "unat n"] show "unat d' \<le> unat d"
    by (simp add: d')
  from nat_reduced_props(3) [OF D, of "unat n"] show "unat n' < unat d'" if "unat n < unat d"
    using that by (simp add: n' d')
  from nat_reduced_props(4) [OF D, of "unat n"] show "odd (unat n') \<or> odd (unat d')"
    by (simp add: n' d')
  show "d' = 1" if "n' = 0"
  proof -
    have "unat n' = 0"
      using that by simp
    with nat_reduced_props(5) [OF D, of "unat n"] have "unat d' = 1"
      by (simp add: n' d')
    then show ?thesis
      by (simp add: word_unat_eq_iff)
  qed
qed

lemma cal_ms_trim_small:
  fixes ms1 ms2 :: u64
  assumes "ms2 < 2 ^ 30"
  shows "cal_ms_trim ms1 ms2 = (ms1, ms2)"
  using assms by (subst cal_ms_trim.simps) (simp add: not_le [symmetric])

lemma cal_ms_trim_nonzero:
  fixes ms1 ms2 :: u64
  assumes "ms2 \<noteq> 0"
  shows "snd (cal_ms_trim ms1 ms2) \<noteq> 0"
  using assms
proof (induction ms1 ms2 rule: cal_ms_trim.induct)
  case (1 ms1 ms2)
  show ?case
  proof (cases "2 ^ 30 \<le> ms2")
    case True
    then have "2 ^ 30 \<le> unat ms2"
      by (simp add: word_le_nat_alt)
    then have "unat (drop_bit 1 ms2) \<noteq> 0"
      unfolding unat_shr1 by simp
    then have "drop_bit 1 ms2 \<noteq> 0"
      by (simp only: unat_eq_0 not_False_eq_True)
    from "1.IH" [OF True this] True show ?thesis
      by (subst cal_ms_trim.simps) (simp only: if_True simp_thms)
  next
    case False
    with "1.prems" show ?thesis
      by (subst cal_ms_trim.simps) simp
  qed
qed


lemma ms_to_p_exact:
  fixes a b c :: u64
  assumes a4: "4 \<le> unat a" and a25: "unat a < 2 ^ 25 + 4"
    and bc: "unat b < unat c" and c30: "unat c < 2 ^ 30"
    and par: "odd (unat b) \<or> odd (unat c)" and z: "b = 0 \<Longrightarrow> c = 1"
  shows "map_option p_to_ms (ms_to_p (a, b, c)) = Some (a, b, c)"
proof -
  have loop: "ms_to_p_loop c b = Some (c, b)"
    using c30 par by (intro ms_to_p_loop_exit) auto
  have "p_to_ms (ms_to_p_params a c b) = (a, b, c)"
  proof (cases "b = 0")
    case True
    with z ms_roundtrip_params_zero [OF a4 a25, of c] show ?thesis
      by simp
  next
    case False
    have "0 < unat c"
      using bc by simp
    then show ?thesis
      using a4 a25 c30 bc False by (intro ms_roundtrip_params)
  qed
  then show ?thesis
    by (simp add: ms_to_p_def loop)
qed

text \<open>
  Claim C1, as amended.  Encoding a ratio with \<^verbatim>\<open>ms_to_p\<close> and decoding the
  parameters with \<^verbatim>\<open>p_to_ms\<close> gives the ratio back exactly when the integer part
  is at least 4 (the encoding subtracts 512 from \<open>128 * a\<close>) and below \<open>2^25 + 4\<close>
  (so that \<open>p[0]\<close> fits 32 bits), \<open>0 \<le> b < c < 2^30\<close>, numerator and denominator
  are not both even (\<^verbatim>\<open>ms_to_p\<close> halves both while they are), and a zero
  numerator comes with the denominator 1 (\<^verbatim>\<open>ms_to_p\<close> stores \<open>0/1\<close> for it).
\<close>

theorem ms_to_p_roundtrip:
  fixes a b c :: u64
  assumes "4 \<le> a" and "a < 2 ^ 25 + 4" and "b < c" and "c < 2 ^ 30"
    and "odd b \<or> odd c" and "b = 0 \<longrightarrow> c = 1"
  shows "map_option p_to_ms (ms_to_p (a, b, c)) = Some (a, b, c)"
proof (rule ms_to_p_exact)
  show "4 \<le> unat a"
    using assms(1) by (simp add: word_le_nat_alt)
  show "unat a < 2 ^ 25 + 4"
    using assms(2) by (simp add: word_less_nat_alt)
  show "unat b < unat c"
    using assms(3) by (simp add: word_less_nat_alt)
  show "unat c < 2 ^ 30"
    using assms(4) by (simp add: word_less_nat_alt)
  show "odd (unat b) \<or> odd (unat c)"
    using assms(5) by (simp add: even_unat_u64)
  show "c = 1" if "b = 0"
    using that assms(6) by simp
qed

text \<open>The spec's example: \<open>4 + 1/3\<close>.\<close>

theorem ms_to_p_roundtrip_witness:
  "map_option p_to_ms (ms_to_p (4, 1, 3)) = Some (4, 1, 3)"
  by (rule ms_to_p_roundtrip) simp_all

text \<open>
  Claim C1 as stated fails: \<open>4 + 2/4\<close> comes back as \<open>4 + 1/2\<close>, \<open>4 + 0/3\<close> as
  \<open>4 + 0/1\<close>, and \<open>0 + 0/1\<close> as \<open>2^25 + 0/1\<close>.
\<close>

theorem ms_to_p_roundtrip_counterexample:
  "map_option p_to_ms (ms_to_p (4, 2, 4)) = Some (4, 1, 2) \<and>
   map_option p_to_ms (ms_to_p (4, 0, 3)) = Some (4, 0, 1) \<and>
   map_option p_to_ms (ms_to_p (0, 0, 1)) = Some (33554432, 0, 1)"
  by code_simp


lemma ms_to_p_general:
  fixes a b c :: u64
  assumes a4: "4 \<le> unat a" and a2050: "unat a \<le> 2050" and bc: "unat b < unat c"
  shows "\<exists>p0 p1 p2. ms_to_p (a, b, c) = Some (p0, p1, p2) \<and> unat p0 < 2 ^ 18 \<and>
           unat p1 < unat p2 \<and> unat p2 \<le> unat c \<and>
           (unat c < 2 ^ 30 \<and> b \<noteq> 0 \<and> (odd (unat b) \<or> odd (unat c)) \<longrightarrow> unat p2 = unat c)"
proof -
  have c0: "c \<noteq> 0"
    using bc by auto
  from ms_to_p_loop_spec [OF c0, of b]
  obtain d n where loop: "ms_to_p_loop c b = Some (d, n)"
    and d0: "d \<noteq> 0" and d30: "unat d < 2 ^ 30" and dc: "unat d \<le> unat c"
    and nd: "unat n \<le> unat d"
    using bc by auto
  define D where "D = (if n = 0 \<or> d = 0 then 1 else d)"
  define N where "N = (if n = 0 \<or> d = 0 then 0 else n)"
  have same: "ms_to_p_params a d n = ms_to_p_params a D N"
    by (simp add: ms_to_p_params_def D_def N_def)
  have D0: "0 < unat D"
    using d0 by (simp add: D_def unat_gt_0)
  have D30: "unat D < 2 ^ 30"
    using d30 by (simp add: D_def)
  have ND: "unat N \<le> unat D"
    using nd by (simp add: D_def N_def)
  have Dd: "unat D \<le> unat d"
    using d0 by (simp add: D_def unat_gt_0 Suc_leI)
  have N0: "N = 0 \<Longrightarrow> D = 1"
    by (cases "n = 0 \<or> d = 0") (auto simp: D_def N_def)
  obtain p0 p1 p2 where p: "ms_to_p_params a D N = (p0, p1, p2)"
    by (cases "ms_to_p_params a D N") auto
  have k: "unat N * 128 div unat D \<le> 128"
  proof -
    have "unat N * 128 div unat D \<le> unat D * 128 div unat D"
      using ND by (intro div_le_mono) simp
    then show ?thesis
      using D0 by simp
  qed
  have a25: "unat a < 2 ^ 25 + 4"
    using a2050 by simp
  have fit: "unat a * 128 + unat N * 128 div unat D < 2 ^ 32 + 512"
    using a2050 k by simp
  from ms_to_p_params_unat [OF D0 D30 ND N0 a4 a25 fit p]
  have u0: "unat p0 = unat a * 128 + unat N * 128 div unat D - 512"
    and u1: "unat p1 = unat N * 128 mod unat D" and u2: "unat p2 = unat D"
    by simp_all
  have "unat p0 < 2 ^ 18"
    using a2050 k by (simp add: u0)
  moreover have "unat p1 < unat p2"
    using D0 by (simp add: u1 u2)
  moreover have "unat p2 \<le> unat c"
    using Dd dc by (simp add: u2)
  moreover have "unat p2 = unat c"
    if "unat c < 2 ^ 30" and "b \<noteq> 0" and "odd (unat b) \<or> odd (unat c)"
  proof -
    have "ms_to_p_loop c b = Some (c, b)"
      using that by (intro ms_to_p_loop_exit) auto
    with loop have "d = c" "n = b"
      by simp_all
    then show ?thesis
      using that(2) c0 by (simp add: u2 D_def)
  qed
  moreover have "ms_to_p (a, b, c) = Some (p0, p1, p2)"
    by (simp add: ms_to_p_def loop same p)
  ultimately show ?thesis
    by blast
qed

text \<open>
  Claim C3, as amended.  For an integer part in \<open>[4, 2050]\<close> (the callers hand over
  \<open>[4, 567]\<close>) and \<open>0 \<le> b < c\<close>, \<^verbatim>\<open>ms_to_p\<close> returns, with \<open>p1 < 2^18\<close>,
  \<open>p2 < p3 \<le> c\<close> (so \<open>p2 < c\<close>); \<open>p3\<close> is the denominator after the halving of
  \<^verbatim>\<open>ms_to_p\<close>, and it is \<open>c\<close> itself when \<open>c < 2^30\<close>, \<open>b \<noteq> 0\<close> and \<open>b\<close> or
  \<open>c\<close> is odd.
\<close>

theorem ms_to_p_bounds:
  fixes a b c :: u64
  assumes "4 \<le> a" and "a \<le> 2050" and "b < c"
  shows "\<exists>p0 p1 p2. ms_to_p (a, b, c) = Some (p0, p1, p2) \<and> p0 < 2 ^ 18 \<and>
           p1 < p2 \<and> ucast p2 \<le> c \<and> ucast p1 < c \<and>
           (c < 2 ^ 30 \<and> b \<noteq> 0 \<and> (odd b \<or> odd c) \<longrightarrow> ucast p2 = c)"
proof -
  have "4 \<le> unat a" "unat a \<le> 2050" "unat b < unat c"
    using assms by (simp_all add: word_le_nat_alt word_less_nat_alt)
  from ms_to_p_general [OF this]
  obtain p0 p1 p2 where p: "ms_to_p (a, b, c) = Some (p0, p1, p2)"
    and u0: "unat p0 < 2 ^ 18" and u1: "unat p1 < unat p2" and u2: "unat p2 \<le> unat c"
    and u3: "unat c < 2 ^ 30 \<and> b \<noteq> 0 \<and> (odd (unat b) \<or> odd (unat c)) \<longrightarrow> unat p2 = unat c"
    by blast
  have "p0 < 2 ^ 18"
    using u0 by (simp add: word_less_nat_alt)
  moreover have "p1 < p2"
    using u1 by (simp add: word_less_nat_alt)
  moreover have "(ucast p2 :: u64) \<le> c"
    using u2 by (simp add: word_le_nat_alt unat_ucast_u64)
  moreover have "(ucast p1 :: u64) < c"
    using u1 u2 by (simp add: word_less_nat_alt unat_ucast_u64)
  moreover have "c < 2 ^ 30 \<and> b \<noteq> 0 \<and> (odd b \<or> odd c) \<longrightarrow> (ucast p2 :: u64) = c"
    using u3 by (simp add: word_less_nat_alt word_unat_eq_iff [of "ucast p2" c] unat_ucast_u64 even_unat_u64)
  ultimately show ?thesis
    using p by blast
qed

theorem ms_to_p_bounds_witness:
  "\<exists>p0 p1 p2. ms_to_p (4, 1, 3) = Some (p0, p1, p2) \<and> p0 < 2 ^ 18 \<and> p1 < p2 \<and>
     ucast p2 = (3 :: u64)"
  using ms_to_p_bounds [of 4 1 3] by auto

text \<open>
  Claim C3 as stated fails: for \<open>4 + 0/3\<close> and \<open>4 + 2/4\<close> the third parameter is
  not the denominator given, and for the integer part 2052 the first parameter is
  \<open>2^18\<close>.
\<close>

theorem ms_to_p_bounds_counterexample:
  "ms_to_p (4, 0, 3) = Some (0, 0, 1) \<and> ms_to_p (4, 2, 4) = Some (64, 0, 2) \<and>
   ms_to_p (2052, 0, 1) = Some (2 ^ 18, 0, 1)"
  by code_simp

lemma cal_ms_clamp_props:
  fixes q a :: u64
  assumes "a = (if q < MSINT_MIN then MSINT_MIN
                else if q = 5 \<or> q = 7 then q + 1
                else if MSINT_MAX < q then MSINT_MAX
                else q)"
  shows "4 \<le> a \<and> a \<le> 567 \<and> a \<noteq> 5 \<and> a \<noteq> 7 \<and>
   (q = 5 \<longrightarrow> a = 6) \<and> (q = 7 \<longrightarrow> a = 8) \<and>
   (q < 4 \<longrightarrow> a = 4) \<and> (567 < q \<longrightarrow> a = 567) \<and>
   (4 \<le> q \<and> q \<le> 567 \<and> q \<noteq> 5 \<and> q \<noteq> 7 \<longrightarrow> a = q)"
  unfolding assms
  by (auto simp: MSINT_MIN_def MSINT_MAX_def word_less_nat_alt word_le_nat_alt)

lemma cal_ms_shape:
  fixes numerator denominator :: u64
  assumes "denominator \<noteq> 0"
  shows "\<exists>ms1 ms2 rc b c.
           cal_ms_trim (numerator mod denominator) denominator = (ms1, ms2) \<and> ms2 \<noteq> 0 \<and>
           remove_common_factor (ms1, ms2) = (rc, b, c) \<and> c \<noteq> 0 \<and>
           cal_ms numerator denominator =
             (if numerator div denominator < MSINT_MIN then MSINT_MIN
              else if numerator div denominator = 5 \<or> numerator div denominator = 7
                then numerator div denominator + 1
              else if MSINT_MAX < numerator div denominator then MSINT_MAX
              else numerator div denominator, b, c)"
proof -
  obtain ms1 ms2 where trim: "cal_ms_trim (numerator mod denominator) denominator = (ms1, ms2)"
    by (cases "cal_ms_trim (numerator mod denominator) denominator") auto
  have ms2: "ms2 \<noteq> 0"
    using cal_ms_trim_nonzero [OF assms, of "numerator mod denominator"] by (simp add: trim)
  obtain rc b c where rcf: "remove_common_factor (ms1, ms2) = (rc, b, c)"
    by (cases "remove_common_factor (ms1, ms2)") auto
  have c: "c \<noteq> 0"
    using ms2 rcf by (rule remove_common_factor_props(1))
  have m: "numerator - numerator div denominator * denominator = numerator mod denominator"
    by (simp add: minus_div_mult_eq_mod)
  show ?thesis
    using trim ms2 rcf c by (simp add: cal_ms_def Let_def m)
qed

text \<open>
  For every numerator and every denominator \<open>\<ge> 1\<close>, \<^verbatim>\<open>cal_ms_p\<close> returns (no
  trap, no endless loop; it has no error result), and the integer part \<open>ms[0]\<close> of
  the ratio that it hands to \<^verbatim>\<open>ms_to_p\<close> is in \<open>[4, 567]\<close> and is neither 5 nor 7: a
  quotient 5 becomes 6, a quotient 7 becomes 8, a quotient below 4 becomes 4, one
  above 567 becomes 567, any other is kept.  For a denominator below \<open>2^30\<close> the
  parameters written to \<open>p\<close> decode (\<^verbatim>\<open>p_to_ms\<close>) to exactly that ratio, so that the
  divider produced is never 5 or 7 there.
\<close>

lemma cal_ms_p_ratio:
  fixes numerator denominator :: u64
  assumes "denominator \<noteq> 0"
  shows "\<exists>a b c p. cal_ms numerator denominator = (a, b, c) \<and>
           cal_ms_p numerator denominator = Some p \<and>
           4 \<le> a \<and> a \<le> 567 \<and> a \<noteq> 5 \<and> a \<noteq> 7 \<and>
           (numerator div denominator = 5 \<longrightarrow> a = 6) \<and>
           (numerator div denominator = 7 \<longrightarrow> a = 8) \<and>
           (numerator div denominator < 4 \<longrightarrow> a = 4) \<and>
           (567 < numerator div denominator \<longrightarrow> a = 567) \<and>
           (4 \<le> numerator div denominator \<and> numerator div denominator \<le> 567 \<and>
            numerator div denominator \<noteq> 5 \<and> numerator div denominator \<noteq> 7 \<longrightarrow>
              a = numerator div denominator) \<and>
           (denominator < 2 ^ 30 \<longrightarrow> p_to_ms p = (a, b, c))"
proof -
  let ?q = "numerator div denominator"
  define a where "a = (if ?q < MSINT_MIN then MSINT_MIN
                else if ?q = 5 \<or> ?q = 7 then ?q + 1
                else if MSINT_MAX < ?q then MSINT_MAX
                else ?q)"
  from cal_ms_shape [OF assms, of numerator]
  obtain ms1 ms2 rc b c
    where trim: "cal_ms_trim (numerator mod denominator) denominator = (ms1, ms2)"
      and ms2: "ms2 \<noteq> 0" and rcf: "remove_common_factor (ms1, ms2) = (rc, b, c)"
      and c: "c \<noteq> 0" and ms: "cal_ms numerator denominator = (a, b, c)"
    unfolding a_def by blast
  note cl = cal_ms_clamp_props [OF a_def]
  from ms_to_p_loop_spec [OF c, of b]
  obtain d' n' where "ms_to_p_loop c b = Some (d', n')"
    by blast
  then have p: "ms_to_p (a, b, c) = Some (ms_to_p_params a d' n')"
    by (simp add: ms_to_p_def)
  define p where "p = ms_to_p_params a d' n'"
  note p = p [folded p_def]
  then have calp: "cal_ms_p numerator denominator = Some p"
    using assms by (simp add: cal_ms_p_def ms)
  have dec: "p_to_ms p = (a, b, c)" if small: "denominator < 2 ^ 30"
  proof -
    have "cal_ms_trim (numerator mod denominator) denominator = (numerator mod denominator, denominator)"
      using small by (rule cal_ms_trim_small)
    with trim have eq: "ms1 = numerator mod denominator" "ms2 = denominator"
      by auto
    have D: "0 < unat denominator"
      using assms by (simp add: unat_gt_0)
    have lt: "unat ms1 < unat ms2"
      using D by (simp add: eq unat_mod)
    have "unat c \<le> unat ms2"
      using ms2 rcf by (rule remove_common_factor_props(2))
    then have c30: "unat c < 2 ^ 30"
      using small by (simp add: eq word_less_nat_alt)
    have bc: "unat b < unat c"
      using ms2 rcf lt by (rule remove_common_factor_props(3))
    have par: "odd (unat b) \<or> odd (unat c)"
      using ms2 rcf by (rule remove_common_factor_props(4))
    have z: "b = 0 \<Longrightarrow> c = 1"
      using ms2 rcf by (rule remove_common_factor_props(5))
    have a4: "4 \<le> unat a" and a25: "unat a < 2 ^ 25 + 4"
      using cl by (simp_all add: word_le_nat_alt)
    from ms_to_p_exact [OF a4 a25 bc c30 par z] p show ?thesis
      by simp
  qed
  from ms calp cl dec show ?thesis
    by blast
qed

text \<open>
  Claim C2 at the failing input: a VCO of 2200000001 Hz divided down to
  1100000001 Hz.  The quotient is 1 and the remainder 1100000000; the trimming
  loop halves the remainder and the denominator, which is not below \<open>2^30\<close>, to
  550000000 each, so the fraction handed on is \<open>1/1\<close>.  The quotient is raised to
  4, and \<^verbatim>\<open>ms_to_p\<close> encodes \<open>4 + 1/1\<close> as \<open>p = (128, 0, 1)\<close>, which is the
  encoding of the integer part 5: \<^verbatim>\<open>p_to_ms\<close> decodes it to \<open>5 + 0/1\<close>.  In the same
  way a quotient \<open>6\<close>, and a quotient \<open>5\<close> that was raised to \<open>6\<close>, end as the integer
  part 7, and the quotient \<open>567\<close> as 568, above the largest divider.
\<close>

theorem cal_ms_p_yields_5:
  "cal_ms 2200000001 1100000001 = (4, 1, 1) \<and>
   cal_ms_p 2200000001 1100000001 = Some (128, 0, 1) \<and>
   p_to_ms (128, 0, 1) = (5, 0, 1) \<and>
   cal_ms_p 5368709124 1073741825 = Some (128, 0, 1) \<and>
   cal_ms_p 7516192774 1073741825 = Some (384, 0, 1) \<and>
   cal_ms_p 6442450949 1073741825 = Some (384, 0, 1) \<and>
   p_to_ms (384, 0, 1) = (7, 0, 1) \<and>
   cal_ms_p 609885356599 1073741825 = Some (72192, 0, 1) \<and>
   p_to_ms (72192, 0, 1) = (568, 0, 1)"
proof -
  have "cal_ms 2200000001 1100000001 = (4, 1, 1)"
    by code_simp
  moreover have "cal_ms_p 2200000001 1100000001 = Some (128, 0, 1)"
    by code_simp
  moreover have "p_to_ms (128, 0, 1) = (5, 0, 1)"
    by code_simp
  moreover have "cal_ms_p 5368709124 1073741825 = Some (128, 0, 1)"
    by code_simp
  moreover have "cal_ms_p 7516192774 1073741825 = Some (384, 0, 1)"
    by code_simp
  moreover have "cal_ms_p 6442450949 1073741825 = Some (384, 0, 1)"
    by code_simp
  moreover have "p_to_ms (384, 0, 1) = (7, 0, 1)"
    by code_simp
  moreover have "cal_ms_p 609885356599 1073741825 = Some (72192, 0, 1)"
    by code_simp
  moreover have "p_to_ms (72192, 0, 1) = (568, 0, 1)"
    by code_simp
  ultimately show ?thesis
    by (intro conjI)
qed

text \<open>
  The input is one that the driver receives: \<^verbatim>\<open>si5338_msynth_round_rate\<close> of a
  MultiSynth that is not the master, asked for 1100000001 Hz from a VCO of
  2200000001 Hz, returns that rate and stores the parameters of the divider 5 in
  the node, marked valid.
\<close>

lemma msynth_round_rate_stores_5:
  "si5338_msynth_round_rate_nonmaster hwdata 1100000001 2200000001 out_div =
     Some (1100000001, out_div, hwdata\<lparr>params := \<lparr>p = (128, 0, 1), valid = True\<rparr>\<rparr>)"
proof -
  have rcf: "remove_common_factor (1100000000, 1100000001) = (0, 1100000000, 1100000001)"
    by code_simp
  have calp: "cal_ms_p 2200000001 1100000001 = Some (128, 0, 1)"
    by code_simp
  have s: "sint (1100000001 :: u64) = 1100000001"
    by code_simp
  show ?thesis
    by (simp add: si5338_msynth_round_rate_nonmaster_def Let_def rcf calp s)
qed

section \<open>The field codec\<close>

lemma awe_reg_awe_of [simp]: "awe_reg (awe_of reg msk) = reg"
  unfolding awe_reg_def awe_of_def
  by (rule bit_word_eqI) (auto simp: bit_simps dest: bit_imp_le_length)

lemma awe_mask_awe_of [simp]: "awe_mask (awe_of reg msk) = msk"
proof -
  have m: "(0xff :: u32) = mask 8"
    by (simp add: mask_eq_exp_minus_1)
  show ?thesis
    unfolding awe_mask_def awe_of_def m
    by (rule bit_word_eqI) (auto simp: bit_simps)
qed

lemma awe_of_nonzero: "msk \<noteq> 0 \<Longrightarrow> awe_of reg msk \<noteq> 0"
  using awe_mask_awe_of [of reg msk] by (auto simp: awe_mask_def)

lemma nshift_ff: "nshift_loop 0xff 0 = 0" by code_simp
lemma nbits_ff: "nbits_loop 0xff 0 1 = 8" by code_simp
lemma nshift_03: "nshift_loop 0x03 0 = 0" by code_simp
lemma nbits_03: "nbits_loop 0x03 0 1 = 2" by code_simp

lemma nbits_ff': "nbits_loop 0xff 0 (Suc 0) = 8" using nbits_ff by simp
lemma nbits_03': "nbits_loop 0x03 0 (Suc 0) = 2" using nbits_03 by simp

lemma write3:
  assumes "faults st = []" and "distinct [r0, r1, r2]"
  shows "\<exists>st'. write_multireg64 st v [awe_of r0 0xff, awe_of r1 0xff, awe_of r2 0x03, 0] = (0, st') \<and>
    regs st' = (regs st)(r0 := ucast (v AND 0xff), r1 := ucast (drop_bit 8 v AND 0xff),
              r2 := (regs st r2 AND NOT 3) OR (ucast (drop_bit 16 v AND 0xff) AND 3)) \<and>
    faults st' = [] \<and> chip st' = chip st"
  using assms
  by (auto simp add: awe_of_nonzero Let_def nshift_ff nbits_ff' nshift_03 nbits_03' si5338_reg_write_def regmap_write_def regmap_update_bits_def next_fault_def)

lemma read3:
  assumes "faults st = []" and "chip st = []"
  shows "fst (read_multireg64 st [awe_of r0 0xff, awe_of r1 0xff, awe_of r2 0x03, 0]) =
    (0, (ucast (regs st r0 AND 0xff) OR push_bit 8 (ucast (regs st r1 AND 0xff))) OR
        push_bit 16 (ucast (regs st r2 AND 3)))"
  using assms
  by (simp add: read_multireg64_def awe_of_nonzero Let_def nshift_ff nbits_ff' nshift_03 nbits_03' si5338_reg_read_def regmap_read_def next_fault_def split: prod.splits)

lemma field18_bits:
  fixes v :: u64 and x :: u8
  assumes "v < 2 ^ 18"
  shows "(ucast ((ucast (v AND 0xff) :: u8) AND 0xff) OR
          push_bit 8 (ucast ((ucast (drop_bit 8 v AND 0xff) :: u8) AND 0xff))) OR
         push_bit 16 (ucast (((x AND NOT 3) OR ((ucast (drop_bit 16 v AND 0xff) :: u8) AND 3)) AND 3)) = v"
proof -
  have "unat v < 2 ^ 18"
    using assms by (simp add: word_less_nat_alt)
  then have v: "take_bit 18 v = v"
    by (simp add: word_unat_eq_iff unsigned_take_bit_eq take_bit_nat_eq_self)
  have m8: "(0xff :: u64) = mask 8" "(0xff :: u8) = mask 8" "(3 :: u8) = mask 2"
    by (simp_all add: mask_eq_exp_minus_1)
  show ?thesis
    apply (subst (4) v [symmetric])
    unfolding m8
    apply (rule bit_word_eqI)
    subgoal for n
      by (cases "n < 16") (auto simp: bit_simps)
    done
qed


text \<open>
  Claim C6.  For a field of three different registers with the masks \<open>0xFF\<close>,
  \<open>0xFF\<close>, \<open>0x03\<close> (18 bits), over a register map without faults whose reads
  return what was written, \<^verbatim>\<open>write_multireg64\<close> of any \<open>v < 2^18\<close> succeeds and
  \<^verbatim>\<open>read_multireg64\<close> then yields \<open>v\<close>.
\<close>

theorem multireg64_roundtrip:
  fixes v :: u64
  assumes "faults st = []" and "chip st = []" and "distinct [r0, r1, r2]" and "v < 2 ^ 18"
  shows "\<exists>st'. write_multireg64 st v [awe_of r0 0xff, awe_of r1 0xff, awe_of r2 0x03, 0] = (0, st') \<and>
           fst (read_multireg64 st' [awe_of r0 0xff, awe_of r1 0xff, awe_of r2 0x03, 0]) = (0, v)"
proof -
  from write3 [OF assms(1,3), of v]
  obtain st' where w: "write_multireg64 st v [awe_of r0 0xff, awe_of r1 0xff, awe_of r2 0x03, 0] = (0, st')"
    and r: "regs st' = (regs st)(r0 := ucast (v AND 0xff), r1 := ucast (drop_bit 8 v AND 0xff),
              r2 := (regs st r2 AND NOT 3) OR (ucast (drop_bit 16 v AND 0xff) AND 3))"
    and f: "faults st' = []" and c: "chip st' = chip st"
    by blast
  have c': "chip st' = []"
    using c assms(2) by simp
  have "fst (read_multireg64 st' [awe_of r0 0xff, awe_of r1 0xff, awe_of r2 0x03, 0]) = (0, v)"
    using assms(3) field18_bits [OF assms(4), of "regs st r2"]
    by (simp only: read3 [OF f c'] r) simp
  with w show ?thesis
    by blast
qed

text \<open>The field P1 of MS0 (registers 53, 54, 55) on a blank register map.\<close>

theorem multireg64_roundtrip_witness:
  "fst (read_multireg64
          (snd (write_multireg64 blank_regmap 0x2abcd [0x35ff, 0x36ff, 0x3703, 0]))
          [0x35ff, 0x36ff, 0x3703, 0]) = (0, 0x2abcd)"
  using multireg64_roundtrip [of blank_regmap "0x35" "0x36" "0x37" "0x2abcd"]
  by (auto simp: blank_regmap_def awe_of_def)

declare write_multireg64.simps [simp del]

declare field_writes.simps [simp del]

lemma reg_write_ok:
  assumes "faults st = 0 # fs"
  shows "si5338_reg_write st reg val msk =
           (0, st\<lparr>faults := fs, trace := trace st @ [write_event (reg, val, msk)],
                  regs := apply_write (regs st) (reg, val, msk)\<rparr>)"
  using assms
  by (simp add: si5338_reg_write_def regmap_write_def regmap_update_bits_def next_fault_def
      apply_write_def write_event_def)

lemma reg_write_fail:
  assumes "faults st = e # fs" and "e \<noteq> 0"
  shows "si5338_reg_write st reg val msk =
           (- int e, st\<lparr>faults := fs, trace := trace st @ [write_event (reg, val, msk)]\<rparr>)"
  using assms
  by (simp add: si5338_reg_write_def regmap_write_def regmap_update_bits_def next_fault_def
      write_event_def)

lemma foldl_apply_write_other:
  assumes "r \<notin> fst ` set ws"
  shows "foldl apply_write f ws r = f r"
  using assms
  by (induction ws arbitrary: f) (auto simp: apply_write_def)

lemma write_multireg64_fails_at:
  assumes "j < length (field_writes data awes)" and "e \<noteq> 0"
    and "faults st = replicate j 0 @ e # fs"
  shows "fst (write_multireg64 st data awes) = - int e \<and>
         regs (snd (write_multireg64 st data awes)) =
           foldl apply_write (regs st) (take j (field_writes data awes)) \<and>
         chip (snd (write_multireg64 st data awes)) = chip st \<and>
         faults (snd (write_multireg64 st data awes)) = fs \<and>
         trace (snd (write_multireg64 st data awes)) =
           trace st @ map write_event (take (Suc j) (field_writes data awes))"
  using assms
proof (induction awes arbitrary: st data j)
  case Nil
  then show ?case
    by (simp add: field_writes.simps)
next
  case (Cons awe rest)
  have awe: "awe \<noteq> 0"
    using Cons.prems(1) by (auto simp: field_writes.simps split: if_splits)
  show ?case
  proof (cases "awe_mask awe = 0")
    case True
    then have fw: "field_writes data (awe # rest) = field_writes data rest"
      using awe by (simp add: field_writes.simps)
    have wm: "write_multireg64 st data (awe # rest) = write_multireg64 st data rest"
      using awe True by (simp add: write_multireg64.simps)
    have j': "j < length (field_writes data rest)"
      using Cons.prems(1) by (simp only: fw)
    from Cons.IH [OF j' Cons.prems(2,3)] show ?thesis
      by (simp only: fw wm)
  next
    case False
    let ?val = "ucast (push_bit (nshift_loop (awe_mask awe) 0) (data AND 0xff)) :: u8"
    let ?data = "drop_bit (nbits_loop (awe_mask awe) (nshift_loop (awe_mask awe) 0) 1) data"
    let ?w = "(awe_reg awe, ?val, awe_mask awe)"
    have fw: "field_writes data (awe # rest) = ?w # field_writes ?data rest"
      using awe False by (simp add: field_writes.simps)
    show ?thesis
    proof (cases j)
      case 0
      then have f: "faults st = e # fs"
        using Cons.prems(3) by simp
      have "write_multireg64 st data (awe # rest) =
          (- int e, st\<lparr>faults := fs, trace := trace st @ [write_event ?w]\<rparr>)"
        using awe False Cons.prems(2) reg_write_fail [OF f Cons.prems(2)]
        by (simp add: write_multireg64.simps Let_def)
      then show ?thesis
        by (simp add: fw 0)
    next
      case (Suc j')
      then have f: "faults st = 0 # (replicate j' 0 @ e # fs)"
        using Cons.prems(3) by simp
      let ?st = "st\<lparr>faults := replicate j' 0 @ e # fs, trace := trace st @ [write_event ?w],
                     regs := apply_write (regs st) ?w\<rparr>"
      have wm: "write_multireg64 st data (awe # rest) = write_multireg64 ?st ?data rest"
        using awe False reg_write_ok [OF f]
        by (simp add: write_multireg64.simps Let_def)
      have j': "j' < length (field_writes ?data rest)"
        using Cons.prems(1) by (simp add: fw Suc)
      have f': "faults ?st = replicate j' 0 @ e # fs"
        by simp
      from Cons.IH [OF j' Cons.prems(2) f'] show ?thesis
        by (simp add: wm fw Suc)
    qed
  qed
qed


lemma reg_write_ok_nofault:
  assumes "faults st = []"
  shows "si5338_reg_write st reg val msk =
           (0, st\<lparr>faults := [], trace := trace st @ [write_event (reg, val, msk)],
                  regs := apply_write (regs st) (reg, val, msk)\<rparr>)"
  using assms
  by (simp add: si5338_reg_write_def regmap_write_def regmap_update_bits_def next_fault_def
      apply_write_def write_event_def)

text \<open>
  Without a fault the call returns 0 and has issued and applied exactly the writes
  of \<open>field_writes\<close>.
\<close>

lemma write_multireg64_success:
  assumes "faults st = []"
  shows "fst (write_multireg64 st data awes) = 0 \<and>
         regs (snd (write_multireg64 st data awes)) =
           foldl apply_write (regs st) (field_writes data awes) \<and>
         chip (snd (write_multireg64 st data awes)) = chip st \<and>
         faults (snd (write_multireg64 st data awes)) = [] \<and>
         trace (snd (write_multireg64 st data awes)) =
           trace st @ map write_event (field_writes data awes)"
  using assms
proof (induction awes arbitrary: st data)
  case Nil
  then show ?case
    by (simp add: write_multireg64.simps field_writes.simps)
next
  case (Cons awe rest)
  show ?case
  proof (cases "awe = 0 \<or> awe_mask awe = 0")
    case True
    with Cons show ?thesis
      by (auto simp: write_multireg64.simps field_writes.simps)
  next
    case False
    let ?val = "ucast (push_bit (nshift_loop (awe_mask awe) 0) (data AND 0xff)) :: u8"
    let ?data = "drop_bit (nbits_loop (awe_mask awe) (nshift_loop (awe_mask awe) 0) 1) data"
    let ?w = "(awe_reg awe, ?val, awe_mask awe)"
    let ?st = "st\<lparr>faults := [], trace := trace st @ [write_event ?w],
                   regs := apply_write (regs st) ?w\<rparr>"
    have fw: "field_writes data (awe # rest) = ?w # field_writes ?data rest"
      using False by (simp add: field_writes.simps)
    have wm: "write_multireg64 st data (awe # rest) = write_multireg64 ?st ?data rest"
      using False reg_write_ok_nofault [OF Cons.prems]
      by (simp add: write_multireg64.simps Let_def)
    have f': "faults ?st = []"
      by simp
    from Cons.IH [OF f'] show ?thesis
      by (simp add: wm fw)
  qed
qed

text \<open>
  Claim C7.  Let the \<open>k\<close>-th register write of a call of \<^verbatim>\<open>write_multireg64\<close> fail
  with the errno \<open>e\<close>, the \<open>k - 1\<close> writes before it succeeding.  Then the call
  returns \<open>-e\<close>.  The registers are the old ones with the first \<open>k - 1\<close> writes of
  the field applied, each replacing the bits under its mask by those of its byte:
  the earlier writes remain applied, and a register that none of them addresses
  still holds its old byte, also when the failed write or a later entry addresses
  it.  The accesses issued are the first \<open>k\<close> writes of the field and nothing after
  them: no register after the \<open>k\<close>-th is written.
\<close>

theorem write_multireg64_failure:
  assumes "1 \<le> k" and "k \<le> length (field_writes data awes)" and "e \<noteq> 0"
    and "faults st = replicate (k - 1) 0 @ e # fs"
  shows "fst (write_multireg64 st data awes) = - int e \<and>
         regs (snd (write_multireg64 st data awes)) =
           foldl apply_write (regs st) (take (k - 1) (field_writes data awes)) \<and>
         (\<forall>r. r \<notin> fst ` set (take (k - 1) (field_writes data awes)) \<longrightarrow>
            regs (snd (write_multireg64 st data awes)) r = regs st r) \<and>
         chip (snd (write_multireg64 st data awes)) = chip st \<and>
         faults (snd (write_multireg64 st data awes)) = fs \<and>
         trace (snd (write_multireg64 st data awes)) =
           trace st @ map write_event (take k (field_writes data awes))"
proof -
  have j: "k - 1 < length (field_writes data awes)" and k: "Suc (k - 1) = k"
    using assms(1,2) by simp_all
  note aux = write_multireg64_fails_at [OF j assms(3,4), unfolded k]
  have "regs (snd (write_multireg64 st data awes)) r = regs st r"
    if "r \<notin> fst ` set (take (k - 1) (field_writes data awes))" for r
    using aux that by (simp add: foldl_apply_write_other)
  with aux show ?thesis
    by simp
qed

text \<open>
  The field P1 of MS0, registers 53, 54 and 55, is written with \<open>0x2abcd\<close> over
  registers that all hold \<open>0x11\<close>, and the second write fails with the errno 5:
  register 53 holds the low byte \<open>0xcd\<close>, registers 54 and 55 still hold \<open>0x11\<close>, and
  the write of \<open>0xab\<close> to register 54 is the last access.
\<close>

theorem write_multireg64_failure_witness:
  "\<exists>st'. write_multireg64 (blank_regmap\<lparr>regs := (\<lambda>r. 0x11), faults := [0, 5, 0]\<rparr>) 0x2abcd
           [0x35ff, 0x36ff, 0x3703, 0] = (- 5, st') \<and>
         regs st' 0x35 = 0xcd \<and> regs st' 0x36 = 0x11 \<and> regs st' 0x37 = 0x11 \<and>
         faults st' = [0] \<and>
         trace st' = [Write 0x35 0xcd 0xff, Write 0x36 0xab 0xff]"
proof -
  have fw: "field_writes 0x2abcd [0x35ff, 0x36ff, 0x3703, 0] =
      [(0x35, 0xcd, 0xff), (0x36, 0xab, 0xff), (0x37, 2, 3)]"
    by code_simp
  show ?thesis
    using write_multireg64_failure [of 2 "0x2abcd" "[0x35ff, 0x36ff, 0x3703, 0]" 5
        "blank_regmap\<lparr>regs := (\<lambda>r. 0x11), faults := [0, 5, 0]\<rparr>" "[0]"]
    by (cases "write_multireg64 (blank_regmap\<lparr>regs := (\<lambda>r. 0x11), faults := [0, 5, 0]\<rparr>)
          0x2abcd [0x35ff, 0x36ff, 0x3703, 0]")
      (simp add: fw blank_regmap_def apply_write_def write_event_def)
qed

section \<open>Rate operations of the nodes\<close>

lemma pll_set_rate_shape:
  "si5338_pll_set_rate beyond hwdata st rate parent_rate =
     map_option (\<lambda>p'. (fst (fst (set_ms_p beyond st p' 4)),
                       hwdata\<lparr>params := \<lparr>p = snd (fst (set_ms_p beyond st p' 4)), valid = True\<rparr>\<rparr>,
                       snd (set_ms_p beyond st p' 4)))
       (cal_ms_p (if rate < FVCOMIN then FVCOMIN else if FVCOMAX < rate then FVCOMAX else rate)
          parent_rate)"
  unfolding si5338_pll_set_rate_def Let_def
  by (simp add: map_option_case case_prod_beta split: option.split)

lemma msynth_set_rate_shape:
  "si5338_msynth_set_rate beyond hwdata st rate parent_rate =
     map_option (\<lambda>p'. (fst (fst (set_ms_p beyond st p' (uint (num hwdata)))),
                       hwdata\<lparr>params := \<lparr>p = snd (fst (set_ms_p beyond st p' (uint (num hwdata)))),
                                          valid = True\<rparr>\<rparr>,
                       snd (set_ms_p beyond st p' (uint (num hwdata)))))
       (cal_ms_p parent_rate
          (if rate = 0 then (parent_rate + MSINT_MAX - 1) div MSINT_MAX else rate))"
  unfolding si5338_msynth_set_rate_def Let_def
  by (simp add: map_option_case case_prod_beta split: option.split)

lemma set_rate_valid_aux:
  "(si5338_pll_set_rate beyond hwdata st rate parent_rate = Some (rc, hwdata', st') \<longrightarrow>
      valid (params hwdata') \<and>
      si5338_pll_set_rate beyond (hwdata\<lparr>params := q\<rparr>) st rate parent_rate =
        Some (rc, hwdata', st')) \<and>
   (si5338_msynth_set_rate beyond hwdata st rate parent_rate = Some (rc, hwdata', st') \<longrightarrow>
      valid (params hwdata') \<and>
      si5338_msynth_set_rate beyond (hwdata\<lparr>params := q\<rparr>) st rate parent_rate =
        Some (rc, hwdata', st'))"
  unfolding pll_set_rate_shape msynth_set_rate_shape
  by auto

text \<open>
  Claim C4, as amended.  \<^verbatim>\<open>si5338_pll_set_rate\<close> and \<^verbatim>\<open>si5338_msynth_set_rate\<close>
  set \<open>params.valid\<close> before they write the registers: whenever they return, with
  success or with the error of a failed register write, the flag is true.  What
  they compute and write does not depend on the parameters and the flag stored in
  the node: a retry recomputes them from the rates.
\<close>

theorem set_rate_valid:
  "(si5338_pll_set_rate beyond hwdata st rate parent_rate = Some (rc, hwdata', st') \<longrightarrow>
      valid (params hwdata') \<and>
      si5338_pll_set_rate beyond (hwdata\<lparr>params := q\<rparr>) st rate parent_rate =
        Some (rc, hwdata', st')) \<and>
   (si5338_msynth_set_rate beyond hwdata st rate parent_rate = Some (rc, hwdata', st') \<longrightarrow>
      valid (params hwdata') \<and>
      si5338_msynth_set_rate beyond (hwdata\<lparr>params := q\<rparr>) st rate parent_rate =
        Some (rc, hwdata', st'))"
  by (rule set_rate_valid_aux)

lemma msynth_set_rate_fails:
  "map_option (\<lambda>(rc, hwdata', st'). rc)
     (si5338_msynth_set_rate 0 (fresh_hw_data 0) (blank_regmap\<lparr>faults := [5]\<rparr>)
        100000000 2500000000) = Some (- 5)"
  by code_simp

lemma pll_set_rate_fails:
  "map_option (\<lambda>(rc, hwdata', st'). rc)
     (si5338_pll_set_rate 0 (fresh_hw_data 0) (blank_regmap\<lparr>faults := [5]\<rparr>)
        2500000000 25000000) = Some (- 5)"
  by code_simp

text \<open>
  Both operations on a node whose flag is false, with a first register write that
  fails with errno 5.
\<close>

theorem set_rate_valid_witness:
  "(\<exists>hwdata' st'.
      si5338_pll_set_rate 0 (fresh_hw_data 0) (blank_regmap\<lparr>faults := [5]\<rparr>)
        2500000000 25000000 = Some (- 5, hwdata', st') \<and> valid (params hwdata')) \<and>
   (\<exists>hwdata' st'.
      si5338_msynth_set_rate 0 (fresh_hw_data 0) (blank_regmap\<lparr>faults := [5]\<rparr>)
        100000000 2500000000 = Some (- 5, hwdata', st') \<and> valid (params hwdata'))"
proof -
  obtain h1 s1 where 1: "si5338_pll_set_rate 0 (fresh_hw_data 0) (blank_regmap\<lparr>faults := [5]\<rparr>)
        2500000000 25000000 = Some (- 5, h1, s1)"
    using pll_set_rate_fails by (auto simp: map_option_case split: option.splits)
  obtain h2 s2 where 2: "si5338_msynth_set_rate 0 (fresh_hw_data 0) (blank_regmap\<lparr>faults := [5]\<rparr>)
        100000000 2500000000 = Some (- 5, h2, s2)"
    using msynth_set_rate_fails by (auto simp: map_option_case split: option.splits)
  from 1 set_rate_valid [of 0 "fresh_hw_data 0" "blank_regmap\<lparr>faults := [5]\<rparr>" 2500000000 25000000
      "- 5" h1 s1]
  have "valid (params h1)"
    by simp
  moreover from 2 set_rate_valid [of 0 "fresh_hw_data 0" "blank_regmap\<lparr>faults := [5]\<rparr>"
      100000000 2500000000 "- 5" h2 s2]
  have "valid (params h2)"
    by simp
  ultimately show ?thesis
    using 1 2 by blast
qed

text \<open>
  Claim C4 as stated fails: the node's flag is false before the call, the register
  write fails, and the flag is true afterwards.
\<close>

theorem set_rate_valid_counterexample:
  "\<not> valid (params (fresh_hw_data 0)) \<and>
   map_option (\<lambda>(rc, hwdata', st'). (rc, valid (params hwdata')))
     (si5338_pll_set_rate 0 (fresh_hw_data 0) (blank_regmap\<lparr>faults := [5]\<rparr>)
        2500000000 25000000) = Some (- 5, True) \<and>
   map_option (\<lambda>(rc, hwdata', st'). (rc, valid (params hwdata')))
     (si5338_msynth_set_rate 0 (fresh_hw_data 0) (blank_regmap\<lparr>faults := [5]\<rparr>)
        100000000 2500000000) = Some (- 5, True)"
  by code_simp

section \<open>The divider of the output clocks\<close>

lemma r_div_loop_16: "r_div_loop rate new_rate 16 = 32"
  by (subst r_div_loop.simps) (simp add: Let_def)

lemma r_div_loop_8: "r_div_loop rate new_rate 8 \<in> {16, 32}"
  by (subst r_div_loop.simps) (simp add: Let_def r_div_loop_16)

lemma r_div_loop_4: "r_div_loop rate new_rate 4 \<in> {8, 16, 32}"
  using r_div_loop_8 [of rate "drop_bit 1 new_rate"]
  by (subst r_div_loop.simps) (auto simp add: Let_def)

lemma r_div_loop_2: "r_div_loop rate new_rate 2 \<in> {4, 8, 16, 32}"
  using r_div_loop_4 [of rate "drop_bit 1 new_rate"]
  by (subst r_div_loop.simps) (auto simp add: Let_def)

lemma r_div_loop_1: "r_div_loop rate new_rate 1 \<in> {2, 4, 8, 16, 32}"
  using r_div_loop_2 [of rate "drop_bit 1 new_rate"]
  by (subst r_div_loop.simps) (auto simp add: Let_def)

lemma clkout_set_rate_r_div_range:
  "clkout_set_rate_r_div rate parent_rate \<in> {1, 2, 4, 8, 16}"
  using r_div_loop_1 [of rate parent_rate] by (auto simp: clkout_set_rate_r_div_def)

text \<open>
  Claim C8 at the failing input: rate 100 from a parent of 3200.  The loop leaves
  with \<open>r_div = 32\<close>, the halving after it makes 16: \<^verbatim>\<open>set_out_div\<close> gets 16 and
  writes 4 to the field R0DIV (register 31, mask \<open>0x1c\<close>), and
  \<^verbatim>\<open>si5338_clkout_round_rate\<close> returns 200, although the divider 32 gives the
  requested rate exactly.
\<close>

theorem clkout_r_div_never_32:
  "clkout_set_rate_r_div 100 3200 = 16 \<and>
   abs_ul (3200 div 16 - 100) = 100 \<and> abs_ul (3200 div 32 - 100) = 0 \<and>
   fst (si5338_clkout_set_rate (fresh_hw_data 0) blank_regmap 100 3200) = 0 \<and>
   trace (snd (si5338_clkout_set_rate (fresh_hw_data 0) blank_regmap 100 3200)) =
     [Write 31 (push_bit 2 4) 0x1c] \<and>
   si5338_clkout_round_rate False 100 3200 = (200, 3200, 16)"
  by code_simp

section \<open>The rounding of a MultiSynth that is not the master\<close>

lemma cal_ms_p_500_100: "cal_ms_p 500 100 = Some (256, 0, 1)"
  by code_simp

text \<open>
  Claim C9 at the failing input: rate 100 from a parent of 500, a ratio of exactly
  5.  The only effect of the test for 5 and 7 is on the local \<open>out_div\<close>, which the
  branch never reads: the rate returned is 100, the ratio 5, while the parameters
  stored in the node are those of the ratio 6.
\<close>

theorem msynth_round_rate_keeps_5:
  "si5338_msynth_round_rate_nonmaster hwdata 100 500 out_div =
     Some (100, out_div + 1, hwdata\<lparr>params := \<lparr>p = (256, 0, 1), valid = True\<rparr>\<rparr>) \<and>
   (500 :: u64) div 100 = 5 \<and> p_to_ms (256, 0, 1) = (6, 0, 1)"
proof -
  have rcf: "remove_common_factor (0, 100) = (1, 0, 1)"
    by (simp add: remove_common_factor_def)
  have "si5338_msynth_round_rate_nonmaster hwdata 100 500 out_div =
     Some (100, out_div + 1, hwdata\<lparr>params := \<lparr>p = (256, 0, 1), valid = True\<rparr>\<rparr>)"
    by (simp add: si5338_msynth_round_rate_nonmaster_def Let_def rcf cal_ms_p_500_100)
  moreover have "p_to_ms (256, 0, 1) = (6, 0, 1)"
    by code_simp
  ultimately show ?thesis
    by simp
qed

section \<open>The high speed entry of the PLL\<close>

text \<open>
  Claim C10 at the failing input: the parameters \<open>(100, 5, 7)\<close> committed for the
  PLL, channel 4.  They are replaced by \<open>(0, 0, 1)\<close> as for a MultiSynth, but
  \<^verbatim>\<open>awe_ms_hs[4]\<close> lies behind the table.  If the word found there is 0, no
  high speed bit is written at all (register 51 is not touched); if it is the
  first entry of the table that follows in the source, \<^verbatim>\<open>AWE_MS0_PDN\<close>, the write
  powers down MS0 (bit 1 of register 31).
\<close>

theorem set_ms_p_pll_high_speed:
  "fst (set_ms_p 0 blank_regmap (100, 5, 7) 4) = (0, (0, 0, 1)) \<and>
   trace (snd (set_ms_p 0 blank_regmap (100, 5, 7) 4)) =
     [Write 97 0 255, Write 98 0 255, Write 99 0 3, Write 99 0 252, Write 100 0 255,
      Write 101 0 255, Write 102 0 255, Write 103 1 255, Write 104 0 255, Write 105 0 255,
      Write 106 0 63] \<and>
   fst (set_ms_p 0x1f02 blank_regmap (100, 5, 7) 4) = (0, (0, 0, 1)) \<and>
   trace (snd (set_ms_p 0x1f02 blank_regmap (100, 5, 7) 4)) =
     [Write 31 2 2, Write 97 0 255, Write 98 0 255, Write 99 0 3, Write 99 0 252,
      Write 100 0 255, Write 101 0 255, Write 102 0 255, Write 103 1 255, Write 104 0 255,
      Write 105 0 255, Write 106 0 63] \<and>
   fst (set_ms_p 0 blank_regmap (100, 5, 7) 2) = (0, (0, 0, 1)) \<and>
   take 1 (trace (snd (set_ms_p 0 blank_regmap (100, 5, 7) 2))) = [Write 51 64 64]"
  by code_simp

section \<open>Bring-up: the polling loops\<close>

lemma counts_append [simp]:
  "status_reads (xs @ ys) = status_reads xs + status_reads ys"
  "poll_sleeps (xs @ ys) = poll_sleeps xs + poll_sleeps ys"
  by (simp_all add: status_reads_def poll_sleeps_def)

lemma counts_single [simp]:
  "status_reads [Read reg] = (if reg = 0xda then 1 else 0)"
  "status_reads [Write reg val msk] = 0"
  "status_reads [Sleep ms] = 0"
  "poll_sleeps [Read reg] = 0"
  "poll_sleeps [Write reg val msk] = 0"
  "poll_sleeps [Sleep ms] = (if ms = 100 then 1 else 0)"
  by (simp_all add: status_reads_def poll_sleeps_def)

lemma write_field_quiet:
  assumes "faults st = []"
  shows "\<exists>st'. write_field st data awe = (0, st') \<and> faults st' = [] \<and> chip st' = chip st \<and>
           status_reads (trace st') = status_reads (trace st) \<and>
           poll_sleeps (trace st') = poll_sleeps (trace st)"
  using assms
  by (auto simp: write_field_def Let_def si5338_reg_write_def regmap_write_def
      regmap_update_bits_def next_fault_def)

lemma read_field_quiet:
  assumes "faults st = []"
  shows "\<exists>rc st'. read_field st awe = (rc, st') \<and> 0 \<le> rc \<and> faults st' = [] \<and>
           poll_sleeps (trace st') = poll_sleeps (trace st) \<and>
           (awe_reg awe \<noteq> 0xda \<longrightarrow> status_reads (trace st') = status_reads (trace st)) \<and>
           (\<not> si5338_regmap_is_volatile (awe_reg awe) \<longrightarrow> chip st' = chip st)"
  using assms
  by (auto simp: read_field_def Let_def si5338_reg_read_def regmap_read_def next_fault_def
      split: list.splits)

lemma msleep_quiet [simp]:
  "faults (msleep st ms) = faults st" "chip (msleep st ms) = chip st"
  "status_reads (trace (msleep st ms)) = status_reads (trace st)"
  "poll_sleeps (trace (msleep st ms)) = poll_sleeps (trace st) + (if ms = 100 then 1 else 0)"
  by (simp_all add: msleep_def)

lemma and_ff_u8: "(v :: u8) AND 0xff = v"
proof -
  have "(0xff :: u8) = - 1"
    by simp
  then show ?thesis
    by (simp only: and.right_neutral word_bw_comms bit.conj_one_right)
qed

lemma get_status_chip:
  assumes "faults st = []" and "chip st = v # vs"
  shows "get_status st = (uint v, st\<lparr>chip := vs, trace := trace st @ [Read 0xda]\<rparr>)"
  using assms
  by (cases st)
    (simp add: get_status_def AWE_STATUS_def read_field_def awe_reg_def awe_mask_def Let_def
      nshift_ff si5338_reg_read_def regmap_read_def next_fault_def si5338_regmap_is_volatile_def
      and_ff_u8)


lemma get_status_trace:
  "trace (snd (get_status st)) = trace st @ [Read 0xda]"
  by (simp add: get_status_def AWE_STATUS_def read_field_def awe_reg_def awe_mask_def Let_def
      si5338_reg_read_def regmap_read_def next_fault_def split: prod.splits list.splits)

lemma status_loop_bound:
  "status_reads (trace (snd (status_loop st check_los timeout i rc))) \<le>
     status_reads (trace st) + (timeout - i)"
proof (induction st check_los timeout i rc rule: status_loop.induct)
  case (1 st check_los timeout i rc)
  show ?case
  proof (cases "i < timeout")
    case False
    then show ?thesis
      by (subst status_loop.simps) simp
  next
    case True
    obtain rc' st' where g: "get_status st = (rc', st')"
      by (cases "get_status st") auto
    have t: "trace st' = trace st @ [Read 0xda]"
      using get_status_trace [of st] by (simp add: g)
    show ?thesis
    proof (cases "rc' < 0 \<or> rc' AND check_los = 0")
      case stop: True
      then have "status_loop st check_los timeout i rc = ((rc', i), st')"
        using True g by (subst status_loop.simps) auto
      then show ?thesis
        using True by (simp add: t)
    next
      case go: False
      then have "status_loop st check_los timeout i rc =
          status_loop (msleep st' 100) check_los timeout (Suc i) rc'"
        using True g by (subst status_loop.simps) auto
      moreover from "1.IH" [OF True g [symmetric]] go
      have "status_reads (trace (snd (status_loop (msleep st' 100) check_los timeout (Suc i) rc')))
          \<le> status_reads (trace (msleep st' 100)) + (timeout - Suc i)"
        by simp
      ultimately show ?thesis
        using True by (simp add: t)
    qed
  qed
qed

lemma status_loop_clear:
  assumes "faults st = []" and "chip st = pre @ v # rest"
    and "\<forall>x\<in>set pre. uint x AND check_los \<noteq> 0" and "uint v AND check_los = 0"
    and "i + length pre < timeout"
  shows "\<exists>st'. status_loop st check_los timeout i rc = ((uint v, i + length pre), st') \<and>
           faults st' = [] \<and> chip st' = rest \<and>
           trace st' = trace st @ concat (map (\<lambda>x. [Read 0xda, Sleep 100]) pre) @ [Read 0xda]"
  using assms
proof (induction pre arbitrary: st i rc)
  case Nil
  then have g: "get_status st = (uint v, st\<lparr>chip := rest, trace := trace st @ [Read 0xda]\<rparr>)"
    by (intro get_status_chip) simp_all
  show ?case
    using Nil g by (subst status_loop.simps) simp
next
  case (Cons x pre)
  let ?st1 = "st\<lparr>chip := pre @ v # rest, trace := trace st @ [Read 0xda]\<rparr>"
  have g: "get_status st = (uint x, ?st1)"
    using Cons.prems by (intro get_status_chip) simp_all
  have step: "status_loop st check_los timeout i rc =
      status_loop (msleep ?st1 100) check_los timeout (Suc i) (uint x)"
    using Cons.prems g by (subst status_loop.simps) simp
  have "\<exists>st'. status_loop (msleep ?st1 100) check_los timeout (Suc i) (uint x) =
           ((uint v, Suc i + length pre), st') \<and>
           faults st' = [] \<and> chip st' = rest \<and>
           trace st' = trace (msleep ?st1 100) @
             concat (map (\<lambda>x. [Read 0xda, Sleep 100]) pre) @ [Read 0xda]"
    using Cons.prems by (intro Cons.IH) (simp_all add: msleep_def)
  then show ?case
    by (simp add: step msleep_def)
qed

lemma status_loop_timeout:
  assumes "faults st = []" and "chip st = pre @ rest"
    and "\<forall>x\<in>set pre. uint x AND check_los \<noteq> 0"
    and "i + length pre = timeout" and "0 \<le> rc"
  shows "\<exists>rc' st'. status_loop st check_los timeout i rc = ((rc', timeout), st') \<and> 0 \<le> rc' \<and>
           faults st' = [] \<and> chip st' = rest \<and>
           trace st' = trace st @ concat (map (\<lambda>x. [Read 0xda, Sleep 100]) pre)"
  using assms
proof (induction pre arbitrary: st i rc)
  case Nil
  then show ?case
    by (subst status_loop.simps) simp
next
  case (Cons x pre)
  let ?st1 = "st\<lparr>chip := pre @ rest, trace := trace st @ [Read 0xda]\<rparr>"
  have g: "get_status st = (uint x, ?st1)"
    using Cons.prems by (intro get_status_chip) simp_all
  have step: "status_loop st check_los timeout i rc =
      status_loop (msleep ?st1 100) check_los timeout (Suc i) (uint x)"
    using Cons.prems g by (subst status_loop.simps) auto
  have "\<exists>rc' st'. status_loop (msleep ?st1 100) check_los timeout (Suc i) (uint x) =
           ((rc', timeout), st') \<and> 0 \<le> rc' \<and>
           faults st' = [] \<and> chip st' = rest \<and>
           trace st' = trace (msleep ?st1 100) @ concat (map (\<lambda>x. [Read 0xda, Sleep 100]) pre)"
    using Cons.prems by (intro Cons.IH) (simp_all add: msleep_def)
  then show ?case
    by (simp add: step msleep_def)
qed


lemma read_field_steady:
  assumes "faults st = []" and "\<not> si5338_regmap_is_volatile (awe_reg awe)"
  shows "\<exists>rc st'. read_field st awe = (rc, st') \<and> 0 \<le> rc \<and> faults st' = [] \<and>
           chip st' = chip st \<and> status_reads (trace st') = status_reads (trace st) \<and>
           poll_sleeps (trace st') = poll_sleeps (trace st)"
proof -
  have "awe_reg awe \<noteq> 0xda"
    using assms(2) by (auto simp: si5338_regmap_is_volatile_def)
  with read_field_quiet [OF assms(1), of awe] assms(2) show ?thesis
    by auto
qed

lemma pfd_regs:
  "\<not> si5338_regmap_is_volatile (awe_reg AWE_PFD_REF)"
  "\<not> si5338_regmap_is_volatile (awe_reg AWE_PFD_FB)"
  "\<not> si5338_regmap_is_volatile (awe_reg AWE_PFD_EXTFB)"
  by (simp_all add: si5338_regmap_is_volatile_def awe_reg_def AWE_PFD_REF_def AWE_PFD_FB_def
      AWE_PFD_EXTFB_def)

lemma post_init_inputs_quiet:
  assumes "faults st = []"
  shows "\<exists>check_los st'. post_init_inputs st = ((0, check_los), st') \<and> faults st' = [] \<and>
           chip st' = chip st \<and> status_reads (trace st') = status_reads (trace st) \<and>
           poll_sleeps (trace st') = poll_sleeps (trace st)"
proof -
  from read_field_steady [OF assms pfd_regs(1)]
  obtain in_src st1 where 1: "get_in_pfd_ref_fb st 0 = (in_src, st1)" "0 \<le> in_src"
    and q1: "faults st1 = []" "chip st1 = chip st"
      "status_reads (trace st1) = status_reads (trace st)"
      "poll_sleeps (trace st1) = poll_sleeps (trace st)"
    by (auto simp: get_in_pfd_ref_fb_def)
  from read_field_steady [OF q1(1) pfd_regs(3)]
  obtain ext_fb st2 where 2: "read_field st1 AWE_PFD_EXTFB = (ext_fb, st2)" "0 \<le> ext_fb"
    and q2: "faults st2 = []" "chip st2 = chip st1"
      "status_reads (trace st2) = status_reads (trace st1)"
      "poll_sleeps (trace st2) = poll_sleeps (trace st1)"
    by auto
  from read_field_steady [OF q2(1) pfd_regs(2)]
  obtain fb_src st3 where 3: "get_in_pfd_ref_fb st2 1 = (fb_src, st3)" "0 \<le> fb_src"
    and q3: "faults st3 = []" "chip st3 = chip st2"
      "status_reads (trace st3) = status_reads (trace st2)"
      "poll_sleeps (trace st3) = poll_sleeps (trace st2)"
    by (auto simp: get_in_pfd_ref_fb_def)
  show ?thesis
    using 1 2 3 q1 q2 q3 by (simp add: post_init_inputs_def Let_def)
qed

lemma post_init_lock_quiet:
  assumes "faults st = []"
  shows "\<exists>st'. post_init_lock st = (0, st') \<and> faults st' = [] \<and>
           chip st' = chip st \<and> status_reads (trace st') = status_reads (trace st) \<and>
           poll_sleeps (trace st') = poll_sleeps (trace st)"
proof -
  from write_field_quiet [OF assms]
  obtain st1 where 1: "write_field st 0 AWE_FCAL_OVRD_EN = (0, st1)"
    and q1: "faults st1 = []" "chip st1 = chip st"
      "status_reads (trace st1) = status_reads (trace st)"
      "poll_sleeps (trace st1) = poll_sleeps (trace st)"
    by blast
  from write_field_quiet [OF q1(1)]
  obtain st2 where 2: "write_field st1 1 AWE_SOFT_RESET = (0, st2)"
    and q2: "faults st2 = []" "chip st2 = chip st1"
      "status_reads (trace st2) = status_reads (trace st1)"
      "poll_sleeps (trace st2) = poll_sleeps (trace st1)"
    by blast
  have "faults (msleep st2 25) = []"
    using q2(1) by simp
  from write_field_quiet [OF this]
  obtain st3 where 3: "write_field (msleep st2 25) 0x65 AWE_REG241 = (0, st3)"
    and q3: "faults st3 = []" "chip st3 = chip (msleep st2 25)"
      "status_reads (trace st3) = status_reads (trace (msleep st2 25))"
      "poll_sleeps (trace st3) = poll_sleeps (trace (msleep st2 25))"
    by blast
  show ?thesis
    using 1 2 3 q1 q2 q3 by (simp add: post_init_lock_def)
qed


lemma si5338_reg_read_quiet:
  assumes "faults st = []"
  shows "\<exists>val st'. si5338_reg_read st reg = ((0, val), st') \<and> faults st' = [] \<and>
           poll_sleeps (trace st') = poll_sleeps (trace st) \<and>
           (reg \<noteq> 0xda \<longrightarrow> status_reads (trace st') = status_reads (trace st))"
  using assms
  by (auto simp: si5338_reg_read_def regmap_read_def next_fault_def Let_def split: list.splits)

lemma read_multireg64_loop_quiet:
  assumes "faults st = []" and "\<forall>a\<in>set awe. awe_reg a \<noteq> 0xda"
  shows "\<exists>data' st'. read_multireg64_loop st awe data full_shift = ((0, data'), st') \<and>
           faults st' = [] \<and> status_reads (trace st') = status_reads (trace st) \<and>
           poll_sleeps (trace st') = poll_sleeps (trace st)"
  using assms
proof (induction awe arbitrary: st data full_shift)
  case Nil
  then show ?case
    by simp
next
  case (Cons a awe)
  show ?case
  proof (cases "a = 0 \<or> awe_mask a = 0")
    case True
    then show ?thesis
      using Cons.IH [of st data full_shift] Cons.prems by (auto simp: Let_def)
  next
    case False
    from si5338_reg_read_quiet [OF Cons.prems(1), of "awe_reg a"] Cons.prems(2)
    obtain val st1 where r: "si5338_reg_read st (awe_reg a) = ((0, val), st1)"
      and q: "faults st1 = []" "poll_sleeps (trace st1) = poll_sleeps (trace st)"
        "status_reads (trace st1) = status_reads (trace st)"
      by auto
    from Cons.IH [OF q(1)] Cons.prems(2) False r q show ?thesis
      by (simp add: Let_def)
  qed
qed

lemma si5338_reg_write_quiet:
  assumes "faults st = []"
  shows "\<exists>st'. si5338_reg_write st reg val msk = (0, st') \<and> faults st' = [] \<and>
           chip st' = chip st \<and> status_reads (trace st') = status_reads (trace st) \<and>
           poll_sleeps (trace st') = poll_sleeps (trace st)"
  using assms
  by (auto simp: si5338_reg_write_def regmap_write_def regmap_update_bits_def next_fault_def)

lemma write_multireg64_quiet:
  assumes "faults st = []"
  shows "\<exists>st'. write_multireg64 st data awe = (0, st') \<and> faults st' = [] \<and>
           chip st' = chip st \<and> status_reads (trace st') = status_reads (trace st) \<and>
           poll_sleeps (trace st') = poll_sleeps (trace st)"
  using assms
proof (induction awe arbitrary: st data)
  case Nil
  then show ?case
    by (simp add: write_multireg64.simps)
next
  case (Cons a awe)
  show ?case
  proof (cases "a = 0 \<or> awe_mask a = 0")
    case True
    then show ?thesis
      using Cons.IH [of st data] Cons.prems by (auto simp: write_multireg64.simps Let_def)
  next
    case False
    let ?val = "(ucast (push_bit (nshift_loop (awe_mask a) 0) (data AND 0xff)) :: u8)"
    from si5338_reg_write_quiet [OF Cons.prems, of "awe_reg a" ?val "awe_mask a"]
    obtain st1 where w: "si5338_reg_write st (awe_reg a) ?val (awe_mask a) = (0, st1)"
      and q: "faults st1 = []" "chip st1 = chip st"
        "status_reads (trace st1) = status_reads (trace st)"
        "poll_sleeps (trace st1) = poll_sleeps (trace st)"
      by blast
    from Cons.IH [OF q(1)] False w q show ?thesis
      by (simp add: write_multireg64.simps Let_def)
  qed
qed

lemma reset_ms_quiet:
  assumes "faults st = []"
  shows "\<exists>st'. reset_ms st = (0, st') \<and> faults st' = [] \<and>
           chip st' = chip st \<and> status_reads (trace st') = status_reads (trace st) \<and>
           poll_sleeps (trace st') = poll_sleeps (trace st)"
proof -
  from write_field_quiet [OF assms]
  obtain st1 where 1: "write_field st 1 AWE_MS_RESET = (0, st1)"
    and q1: "faults st1 = []" "chip st1 = chip st"
      "status_reads (trace st1) = status_reads (trace st)"
      "poll_sleeps (trace st1) = poll_sleeps (trace st)"
    by blast
  have "faults (msleep st1 20) = []"
    using q1(1) by simp
  from write_field_quiet [OF this]
  obtain st2 where 2: "write_field (msleep st1 20) 0 AWE_MS_RESET = (0, st2)"
    and q2: "faults st2 = []" "chip st2 = chip (msleep st1 20)"
      "status_reads (trace st2) = status_reads (trace (msleep st1 20))"
      "poll_sleeps (trace st2) = poll_sleeps (trace (msleep st1 20))"
    by blast
  show ?thesis
    using 1 2 q1 q2 by (simp add: reset_ms_def)
qed

lemma rdiv_in_regs:
  assumes "chn \<in> {0, 1, 2, 3}"
  shows "verify_output_channel chn = 0"
    and "\<not> si5338_regmap_is_volatile (awe_reg (awe_rdiv_in ! nat chn))"
  using assms
  by (auto simp: verify_output_channel_def si5338_regmap_is_volatile_def awe_reg_def
      awe_rdiv_in_def)

lemma ms_used_loop_quiet:
  assumes "faults st = []" and "set chns \<subseteq> {0, 1, 2, 3}"
  shows "\<exists>ms_used' st'. ms_used_loop st chns ms_used = ((0, ms_used'), st') \<and> faults st' = [] \<and>
           status_reads (trace st') = status_reads (trace st) \<and>
           poll_sleeps (trace st') = poll_sleeps (trace st)"
  using assms
proof (induction chns arbitrary: st ms_used)
  case Nil
  then show ?case
    by simp
next
  case (Cons chn chns)
  have c: "chn \<in> {0, 1, 2, 3}"
    using Cons.prems(2) by simp
  from read_field_steady [OF Cons.prems(1) rdiv_in_regs(2) [OF c]]
  obtain out_src st1 where r: "get_out_mux st chn = (out_src, st1)" "0 \<le> out_src"
    and q: "faults st1 = []"
      "status_reads (trace st1) = status_reads (trace st)"
      "poll_sleeps (trace st1) = poll_sleeps (trace st)"
    by (auto simp: get_out_mux_def rdiv_in_regs(1) [OF c])
  have "set chns \<subseteq> {0, 1, 2, 3}"
    using Cons.prems(2) by simp
  from Cons.IH [OF q(1) this] r q show ?case
    by simp
qed

lemma ms_power_loop_quiet:
  assumes "faults st = []" and "set chns \<subseteq> {0, 1, 2, 3}"
  shows "\<exists>st'. ms_power_loop st chns ms_used = (0, st') \<and> faults st' = [] \<and>
           status_reads (trace st') = status_reads (trace st) \<and>
           poll_sleeps (trace st') = poll_sleeps (trace st)"
  using assms
proof (induction chns arbitrary: st)
  case Nil
  then show ?case
    by simp
next
  case (Cons chn chns)
  have c: "\<not> (chn < 0 \<or> 3 < chn)"
    using Cons.prems(2) by auto
  let ?down = "(if ms_used AND push_bit (nat chn) 1 \<noteq> 0 then 0 else 1 :: u8)"
  from write_field_quiet [OF Cons.prems(1), of ?down "awe_ms_powerdown ! nat chn"]
  obtain st1 where w: "set_ms_powerdown st ?down chn = (0, st1)"
    and q: "faults st1 = []"
      "status_reads (trace st1) = status_reads (trace st)"
      "poll_sleeps (trace st1) = poll_sleeps (trace st)"
    using c by (auto simp: set_ms_powerdown_def)
  have "set chns \<subseteq> {0, 1, 2, 3}"
    using Cons.prems(2) by simp
  from Cons.IH [OF q(1) this] w q show ?case
    by simp
qed

lemma power_up_down_needed_ms_quiet:
  assumes "faults st = []"
  shows "\<exists>st'. power_up_down_needed_ms st = (0, st') \<and> faults st' = [] \<and>
           status_reads (trace st') = status_reads (trace st) \<and>
           poll_sleeps (trace st') = poll_sleeps (trace st)"
proof -
  from ms_used_loop_quiet [OF assms, of "[0, 1, 2, 3]" 0]
  obtain ms_used st1 where 1: "ms_used_loop st [0, 1, 2, 3] 0 = ((0, ms_used), st1)"
    and q1: "faults st1 = []"
      "status_reads (trace st1) = status_reads (trace st)"
      "poll_sleeps (trace st1) = poll_sleeps (trace st)"
    by auto
  from ms_power_loop_quiet [OF q1(1), of "[0, 1, 2, 3]" ms_used]
  obtain st2 where 2: "ms_power_loop st1 [0, 1, 2, 3] ms_used = (0, st2)"
    and q2: "faults st2 = []"
      "status_reads (trace st2) = status_reads (trace st1)"
      "poll_sleeps (trace st2) = poll_sleeps (trace st1)"
    by auto
  show ?thesis
    using 1 2 q1 q2 by (simp add: power_up_down_needed_ms_def)
qed


lemma fcal_regs: "\<forall>a\<in>set awe_fcal. awe_reg a \<noteq> 0xda"
  by (simp add: awe_fcal_def awe_reg_def)

lemma post_init_finish_quiet:
  assumes "faults st = []"
  shows "\<exists>st'. post_init_finish st = (0, st') \<and>
           status_reads (trace st') = status_reads (trace st) \<and>
           poll_sleeps (trace st') = poll_sleeps (trace st)"
proof -
  from read_multireg64_loop_quiet [OF assms fcal_regs, of 0 0]
  obtain fcal st1 where 1: "read_multireg64 st awe_fcal = ((0, fcal), st1)"
    and q1: "faults st1 = []" "status_reads (trace st1) = status_reads (trace st)"
      "poll_sleeps (trace st1) = poll_sleeps (trace st)"
    by (auto simp: read_multireg64_def)
  from write_multireg64_quiet [OF q1(1), of fcal awe_fcal_ovrd]
  obtain st2 where 2: "write_multireg64 st1 fcal awe_fcal_ovrd = (0, st2)"
    and q2: "faults st2 = []" "status_reads (trace st2) = status_reads (trace st1)"
      "poll_sleeps (trace st2) = poll_sleeps (trace st1)"
    by blast
  from write_field_quiet [OF q2(1), of 5 AWE_REG47_72]
  obtain st3 where 3: "write_field st2 5 AWE_REG47_72 = (0, st3)"
    and q3: "faults st3 = []" "status_reads (trace st3) = status_reads (trace st2)"
      "poll_sleeps (trace st3) = poll_sleeps (trace st2)"
    by blast
  from write_field_quiet [OF q3(1), of 1 AWE_FCAL_OVRD_EN]
  obtain st4 where 4: "write_field st3 1 AWE_FCAL_OVRD_EN = (0, st4)"
    and q4: "faults st4 = []" "status_reads (trace st4) = status_reads (trace st3)"
      "poll_sleeps (trace st4) = poll_sleeps (trace st3)"
    by blast
  from reset_ms_quiet [OF q4(1)]
  obtain st5 where 5: "reset_ms st4 = (0, st5)"
    and q5: "faults st5 = []" "status_reads (trace st5) = status_reads (trace st4)"
      "poll_sleeps (trace st5) = poll_sleeps (trace st4)"
    by blast
  from write_field_quiet [OF q5(1), of 0 AWE_OUT_ALL_DIS]
  obtain st6 where 6: "write_field st5 0 AWE_OUT_ALL_DIS = (0, st6)"
    and q6: "faults st6 = []" "status_reads (trace st6) = status_reads (trace st5)"
      "poll_sleeps (trace st6) = poll_sleeps (trace st5)"
    by blast
  from write_field_quiet [OF q6(1), of 0 AWE_SOFT_RESET]
  obtain st7 where 7: "write_field st6 0 AWE_SOFT_RESET = (0, st7)"
    and q7: "faults st7 = []" "status_reads (trace st7) = status_reads (trace st6)"
      "poll_sleeps (trace st7) = poll_sleeps (trace st6)"
    by blast
  from power_up_down_needed_ms_quiet [OF q7(1)]
  obtain st8 where 8: "power_up_down_needed_ms st7 = (0, st8)"
    and q8: "status_reads (trace st8) = status_reads (trace st7)"
      "poll_sleeps (trace st8) = poll_sleeps (trace st7)"
    by blast
  show ?thesis
    using 1 2 3 4 5 6 7 8 q1 q2 q3 q4 q5 q6 q7 q8 by (simp add: post_init_finish_def)
qed

lemma polls_counts [simp]:
  "status_reads (concat (map (\<lambda>x. [Read 0xda, Sleep 100]) pre)) = length pre"
  "poll_sleeps (concat (map (\<lambda>x. [Read 0xda, Sleep 100]) pre)) = length pre"
  by (induction pre) (simp_all add: status_reads_def poll_sleeps_def)

text \<open>
  Claim C5.  \<^verbatim>\<open>post_init\<close> on a register map without I/O errors; \<open>check_los\<close> is the
  mask of the first polling phase, as \<^verbatim>\<open>post_init\<close> derives it, and the mask of the
  second phase is \<open>(check_los | PLL_LOL | PLL_SYS_CAL) & 0xf\<close>.  The chip presents
  the status bytes of \<open>chip st\<close> at the successive reads.
  \<^item> The loop reads the status register at most \<open>timeout - i\<close> times, 10 in
    \<^verbatim>\<open>post_init\<close>, whatever happens.
  \<^item> If the first 10 status bytes all have a monitored bit set, \<^verbatim>\<open>post_init\<close>
    returns \<open>-ETIMEDOUT\<close> after exactly 10 reads, each followed by a delay of
    100 ms.
  \<^item> If the monitored bits are clear at read \<open>k1 = length pre1 + 1 \<le> 10\<close> for the
    first time, the first phase ends after exactly \<open>k1\<close> reads; if then the next 10
    status bytes all have a bit of the second mask set, \<^verbatim>\<open>post_init\<close> returns
    \<open>-ETIMEDOUT\<close> after exactly 10 more reads.
  \<^item> If the second phase finds its bits clear at its read \<open>k2 = length pre2 + 1 \<le> 10\<close>,
    \<^verbatim>\<open>post_init\<close> returns 0 and has read the status register exactly \<open>k1 + k2\<close>
    times, with a delay of 100 ms after each read but the last of each phase.
\<close>

theorem post_init_polling:
  assumes "faults st = []" and "post_init_inputs st = ((rc0, check_los), st0)"
  shows
    "status_reads (trace (snd (status_loop st1 m INIT_TIMEOUT 0 rc1))) \<le>
       status_reads (trace st1) + 10 \<and>
     (\<forall>pre rest.
        chip st = pre @ rest \<and> length pre = 10 \<and> (\<forall>x\<in>set pre. uint x AND check_los \<noteq> 0) \<longrightarrow>
        fst (post_init st) = - ETIMEDOUT \<and>
        status_reads (trace (snd (post_init st))) = status_reads (trace st) + 10 \<and>
        poll_sleeps (trace (snd (post_init st))) = poll_sleeps (trace st) + 10) \<and>
     (\<forall>pre1 v1 pre2 rest.
        chip st = pre1 @ v1 # pre2 @ rest \<and> length pre1 < 10 \<and>
        (\<forall>x\<in>set pre1. uint x AND check_los \<noteq> 0) \<and> uint v1 AND check_los = 0 \<and>
        length pre2 = 10 \<and>
        (\<forall>x\<in>set pre2.
           uint x AND ((check_los OR (AWE_STATUS_PLL_LOL OR AWE_STATUS_PLL_SYS_CAL)) AND 0xf) \<noteq> 0) \<longrightarrow>
        fst (post_init st) = - ETIMEDOUT \<and>
        status_reads (trace (snd (post_init st))) =
          status_reads (trace st) + (length pre1 + 1) + 10 \<and>
        poll_sleeps (trace (snd (post_init st))) = poll_sleeps (trace st) + length pre1 + 10) \<and>
     (\<forall>pre1 v1 pre2 v2 rest.
        chip st = pre1 @ v1 # pre2 @ v2 # rest \<and> length pre1 < 10 \<and>
        (\<forall>x\<in>set pre1. uint x AND check_los \<noteq> 0) \<and> uint v1 AND check_los = 0 \<and>
        length pre2 < 10 \<and>
        (\<forall>x\<in>set pre2.
           uint x AND ((check_los OR (AWE_STATUS_PLL_LOL OR AWE_STATUS_PLL_SYS_CAL)) AND 0xf) \<noteq> 0) \<and>
        uint v2 AND ((check_los OR (AWE_STATUS_PLL_LOL OR AWE_STATUS_PLL_SYS_CAL)) AND 0xf) = 0 \<longrightarrow>
        fst (post_init st) = 0 \<and>
        status_reads (trace (snd (post_init st))) =
          status_reads (trace st) + (length pre1 + 1) + (length pre2 + 1) \<and>
        poll_sleeps (trace (snd (post_init st))) =
          poll_sleeps (trace st) + length pre1 + length pre2)"
proof -
  let ?m2 = "(check_los OR (AWE_STATUS_PLL_LOL OR AWE_STATUS_PLL_SYS_CAL)) AND 0xf"
  from post_init_inputs_quiet [OF assms(1)] assms(2)
  have rc0: "rc0 = 0" and q0: "faults st0 = []" "chip st0 = chip st"
    "status_reads (trace st0) = status_reads (trace st)"
    "poll_sleeps (trace st0) = poll_sleeps (trace st)"
    by auto
  note inp = assms(2) [unfolded rc0]
  have bound: "status_reads (trace (snd (status_loop st1 m INIT_TIMEOUT 0 rc1))) \<le>
       status_reads (trace st1) + 10"
    using status_loop_bound [of st1 m INIT_TIMEOUT 0 rc1] by (simp add: INIT_TIMEOUT_def)
  have A: "fst (post_init st) = - ETIMEDOUT \<and>
        status_reads (trace (snd (post_init st))) = status_reads (trace st) + 10 \<and>
        poll_sleeps (trace (snd (post_init st))) = poll_sleeps (trace st) + 10"
    if c: "chip st = pre @ rest" and l: "length pre = 10"
      and b: "\<forall>x\<in>set pre. uint x AND check_los \<noteq> 0" for pre rest
  proof -
    have "chip st0 = pre @ rest"
      using c q0 by simp
    from status_loop_timeout [OF q0(1) this b, of 0 INIT_TIMEOUT 0] l
    obtain rc' st' where s: "status_loop st0 check_los INIT_TIMEOUT 0 0 = ((rc', INIT_TIMEOUT), st')"
      and r: "0 \<le> rc'"
      and t: "trace st' = trace st0 @ concat (map (\<lambda>x. [Read 0xda, Sleep 100]) pre)"
      by (auto simp: INIT_TIMEOUT_def)
    show ?thesis
      using inp s r t l q0 by (simp add: post_init_def)
  qed
  have B: "fst (post_init st) = - ETIMEDOUT \<and>
        status_reads (trace (snd (post_init st))) =
          status_reads (trace st) + (length pre1 + 1) + 10 \<and>
        poll_sleeps (trace (snd (post_init st))) = poll_sleeps (trace st) + length pre1 + 10"
    if c: "chip st = pre1 @ v1 # pre2 @ rest" and l1: "length pre1 < 10"
      and b1: "\<forall>x\<in>set pre1. uint x AND check_los \<noteq> 0" and z1: "uint v1 AND check_los = 0"
      and l2: "length pre2 = 10" and b2: "\<forall>x\<in>set pre2. uint x AND ?m2 \<noteq> 0"
    for pre1 v1 pre2 rest
  proof -
    have "chip st0 = pre1 @ v1 # (pre2 @ rest)" and "0 + length pre1 < INIT_TIMEOUT"
      using c q0 l1 by (simp_all add: INIT_TIMEOUT_def)
    from status_loop_clear [OF q0(1) this(1) b1 z1 this(2), of 0]
    obtain sa where s1: "status_loop st0 check_los INIT_TIMEOUT 0 0 = ((uint v1, length pre1), sa)"
      and qa: "faults sa = []" "chip sa = pre2 @ rest"
        "trace sa = trace st0 @ concat (map (\<lambda>x. [Read 0xda, Sleep 100]) pre1) @ [Read 0xda]"
      by auto
    from post_init_lock_quiet [OF qa(1)]
    obtain sb where lk: "post_init_lock sa = (0, sb)"
      and qb: "faults sb = []" "chip sb = chip sa"
        "status_reads (trace sb) = status_reads (trace sa)"
        "poll_sleeps (trace sb) = poll_sleeps (trace sa)"
      by blast
    have "chip sb = pre2 @ rest"
      using qa qb by simp
    from status_loop_timeout [OF qb(1) this b2, of 0 INIT_TIMEOUT 0] l2
    obtain rc' sc where s2: "status_loop sb ?m2 INIT_TIMEOUT 0 0 = ((rc', INIT_TIMEOUT), sc)"
      and r: "0 \<le> rc'"
      and t: "trace sc = trace sb @ concat (map (\<lambda>x. [Read 0xda, Sleep 100]) pre2)"
      by (auto simp: INIT_TIMEOUT_def)
    have "\<not> INIT_TIMEOUT \<le> length pre1"
      using l1 by (simp add: INIT_TIMEOUT_def)
    then show ?thesis
      using inp s1 lk s2 r t l2 qa qb q0 by (simp add: post_init_def Let_def)
  qed
  have C: "fst (post_init st) = 0 \<and>
        status_reads (trace (snd (post_init st))) =
          status_reads (trace st) + (length pre1 + 1) + (length pre2 + 1) \<and>
        poll_sleeps (trace (snd (post_init st))) =
          poll_sleeps (trace st) + length pre1 + length pre2"
    if c: "chip st = pre1 @ v1 # pre2 @ v2 # rest" and l1: "length pre1 < 10"
      and b1: "\<forall>x\<in>set pre1. uint x AND check_los \<noteq> 0" and z1: "uint v1 AND check_los = 0"
      and l2: "length pre2 < 10" and b2: "\<forall>x\<in>set pre2. uint x AND ?m2 \<noteq> 0"
      and z2: "uint v2 AND ?m2 = 0"
    for pre1 v1 pre2 v2 rest
  proof -
    have "chip st0 = pre1 @ v1 # (pre2 @ v2 # rest)" and "0 + length pre1 < INIT_TIMEOUT"
      using c q0 l1 by (simp_all add: INIT_TIMEOUT_def)
    from status_loop_clear [OF q0(1) this(1) b1 z1 this(2), of 0]
    obtain sa where s1: "status_loop st0 check_los INIT_TIMEOUT 0 0 = ((uint v1, length pre1), sa)"
      and qa: "faults sa = []" "chip sa = pre2 @ v2 # rest"
        "trace sa = trace st0 @ concat (map (\<lambda>x. [Read 0xda, Sleep 100]) pre1) @ [Read 0xda]"
      by auto
    from post_init_lock_quiet [OF qa(1)]
    obtain sb where lk: "post_init_lock sa = (0, sb)"
      and qb: "faults sb = []" "chip sb = chip sa"
        "status_reads (trace sb) = status_reads (trace sa)"
        "poll_sleeps (trace sb) = poll_sleeps (trace sa)"
      by blast
    have "chip sb = pre2 @ v2 # rest" and "0 + length pre2 < INIT_TIMEOUT"
      using qa qb l2 by (simp_all add: INIT_TIMEOUT_def)
    from status_loop_clear [OF qb(1) this(1) b2 z2 this(2), of 0]
    obtain sc where s2: "status_loop sb ?m2 INIT_TIMEOUT 0 0 = ((uint v2, length pre2), sc)"
      and qc: "faults sc = []"
        "trace sc = trace sb @ concat (map (\<lambda>x. [Read 0xda, Sleep 100]) pre2) @ [Read 0xda]"
      by auto
    from post_init_finish_quiet [OF qc(1)]
    obtain sd where fin: "post_init_finish sc = (0, sd)"
      and qd: "status_reads (trace sd) = status_reads (trace sc)"
        "poll_sleeps (trace sd) = poll_sleeps (trace sc)"
      by blast
    have "\<not> INIT_TIMEOUT \<le> length pre1" "\<not> INIT_TIMEOUT \<le> length pre2"
      using l1 l2 by (simp_all add: INIT_TIMEOUT_def)
    then show ?thesis
      using inp s1 lk s2 fin qa qb qc qd q0 by (simp add: post_init_def Let_def)
  qed
  have A': "\<forall>pre rest.
        chip st = pre @ rest \<and> length pre = 10 \<and> (\<forall>x\<in>set pre. uint x AND check_los \<noteq> 0) \<longrightarrow>
        fst (post_init st) = - ETIMEDOUT \<and>
        status_reads (trace (snd (post_init st))) = status_reads (trace st) + 10 \<and>
        poll_sleeps (trace (snd (post_init st))) = poll_sleeps (trace st) + 10"
  proof (intro allI impI)
    fix pre rest
    assume "chip st = pre @ rest \<and> length pre = 10 \<and> (\<forall>x\<in>set pre. uint x AND check_los \<noteq> 0)"
    then have "chip st = pre @ rest" "length pre = 10" "\<forall>x\<in>set pre. uint x AND check_los \<noteq> 0"
      by simp_all
    then show "fst (post_init st) = - ETIMEDOUT \<and>
        status_reads (trace (snd (post_init st))) = status_reads (trace st) + 10 \<and>
        poll_sleeps (trace (snd (post_init st))) = poll_sleeps (trace st) + 10"
      by (rule A)
  qed
  have B': "\<forall>pre1 v1 pre2 rest.
        chip st = pre1 @ v1 # pre2 @ rest \<and> length pre1 < 10 \<and>
        (\<forall>x\<in>set pre1. uint x AND check_los \<noteq> 0) \<and> uint v1 AND check_los = 0 \<and>
        length pre2 = 10 \<and> (\<forall>x\<in>set pre2. uint x AND ?m2 \<noteq> 0) \<longrightarrow>
        fst (post_init st) = - ETIMEDOUT \<and>
        status_reads (trace (snd (post_init st))) =
          status_reads (trace st) + (length pre1 + 1) + 10 \<and>
        poll_sleeps (trace (snd (post_init st))) = poll_sleeps (trace st) + length pre1 + 10"
  proof (intro allI impI)
    fix pre1 v1 pre2 rest
    assume "chip st = pre1 @ v1 # pre2 @ rest \<and> length pre1 < 10 \<and>
        (\<forall>x\<in>set pre1. uint x AND check_los \<noteq> 0) \<and> uint v1 AND check_los = 0 \<and>
        length pre2 = 10 \<and> (\<forall>x\<in>set pre2. uint x AND ?m2 \<noteq> 0)"
    then have "chip st = pre1 @ v1 # pre2 @ rest" "length pre1 < 10"
      "\<forall>x\<in>set pre1. uint x AND check_los \<noteq> 0" "uint v1 AND check_los = 0"
      "length pre2 = 10" "\<forall>x\<in>set pre2. uint x AND ?m2 \<noteq> 0"
      by simp_all
    then show "fst (post_init st) = - ETIMEDOUT \<and>
        status_reads (trace (snd (post_init st))) =
          status_reads (trace st) + (length pre1 + 1) + 10 \<and>
        poll_sleeps (trace (snd (post_init st))) = poll_sleeps (trace st) + length pre1 + 10"
      by (rule B)
  qed
  have C': "\<forall>pre1 v1 pre2 v2 rest.
        chip st = pre1 @ v1 # pre2 @ v2 # rest \<and> length pre1 < 10 \<and>
        (\<forall>x\<in>set pre1. uint x AND check_los \<noteq> 0) \<and> uint v1 AND check_los = 0 \<and>
        length pre2 < 10 \<and> (\<forall>x\<in>set pre2. uint x AND ?m2 \<noteq> 0) \<and>
        uint v2 AND ?m2 = 0 \<longrightarrow>
        fst (post_init st) = 0 \<and>
        status_reads (trace (snd (post_init st))) =
          status_reads (trace st) + (length pre1 + 1) + (length pre2 + 1) \<and>
        poll_sleeps (trace (snd (post_init st))) =
          poll_sleeps (trace st) + length pre1 + length pre2"
  proof (intro allI impI)
    fix pre1 v1 pre2 v2 rest
    assume "chip st = pre1 @ v1 # pre2 @ v2 # rest \<and> length pre1 < 10 \<and>
        (\<forall>x\<in>set pre1. uint x AND check_los \<noteq> 0) \<and> uint v1 AND check_los = 0 \<and>
        length pre2 < 10 \<and> (\<forall>x\<in>set pre2. uint x AND ?m2 \<noteq> 0) \<and>
        uint v2 AND ?m2 = 0"
    then have "chip st = pre1 @ v1 # pre2 @ v2 # rest" "length pre1 < 10"
      "\<forall>x\<in>set pre1. uint x AND check_los \<noteq> 0" "uint v1 AND check_los = 0"
      "length pre2 < 10" "\<forall>x\<in>set pre2. uint x AND ?m2 \<noteq> 0" "uint v2 AND ?m2 = 0"
      by simp_all
    then show "fst (post_init st) = 0 \<and>
        status_reads (trace (snd (post_init st))) =
          status_reads (trace st) + (length pre1 + 1) + (length pre2 + 1) \<and>
        poll_sleeps (trace (snd (post_init st))) =
          poll_sleeps (trace st) + length pre1 + length pre2"
      by (rule C)
  qed
  show ?thesis
    by (intro conjI bound A' B' C')
qed


lemma post_init_inputs_blank:
  "fst (post_init_inputs (blank_regmap\<lparr>chip := c\<rparr>)) = (0, 4)"
  by (simp add: post_init_inputs_def get_in_pfd_ref_fb_def read_field_def Let_def
      si5338_reg_read_def regmap_read_def next_fault_def blank_regmap_def
      si5338_regmap_is_volatile_def awe_reg_def awe_mask_def AWE_PFD_REF_def AWE_PFD_EXTFB_def
      SI5338_PFD_IN_REF_REFCLK_def AWE_STATUS_PLL_LOS_CLKIN_def split: prod.splits)

text \<open>
  The simulated register map of the spec: the reference input is selected, so the
  first mask is \<open>0x4\<close> and the second \<open>0x5\<close>.  With the status bytes 4, 4, 0 and then
  1, 1, 0, \<^verbatim>\<open>post_init\<close> succeeds with three polls in each phase; with ten bytes 4
  it times out after ten polls.
\<close>

theorem post_init_polling_witness:
  "fst (post_init (blank_regmap\<lparr>chip := [4, 4, 0, 1, 1, 0]\<rparr>)) = 0 \<and>
   status_reads (trace (snd (post_init (blank_regmap\<lparr>chip := [4, 4, 0, 1, 1, 0]\<rparr>)))) = 6 \<and>
   poll_sleeps (trace (snd (post_init (blank_regmap\<lparr>chip := [4, 4, 0, 1, 1, 0]\<rparr>)))) = 4 \<and>
   fst (post_init (blank_regmap\<lparr>chip := [4, 4, 4, 4, 4, 4, 4, 4, 4, 4]\<rparr>)) = - ETIMEDOUT \<and>
   status_reads
     (trace (snd (post_init (blank_regmap\<lparr>chip := [4, 4, 4, 4, 4, 4, 4, 4, 4, 4]\<rparr>)))) = 10"
proof -
  let ?s = "blank_regmap\<lparr>chip := [4, 4, 0, 1, 1, 0]\<rparr>"
  let ?t = "blank_regmap\<lparr>chip := [4, 4, 4, 4, 4, 4, 4, 4, 4, 4]\<rparr>"
  obtain s0 where s0: "post_init_inputs ?s = ((0, 4), s0)"
    using post_init_inputs_blank [of "[4, 4, 0, 1, 1, 0]"] by (cases "post_init_inputs ?s") auto
  obtain t0 where t0: "post_init_inputs ?t = ((0, 4), t0)"
    using post_init_inputs_blank [of "[4, 4, 4, 4, 4, 4, 4, 4, 4, 4]"]
    by (cases "post_init_inputs ?t") auto
  have fs: "faults ?s = []" and ft: "faults ?t = []"
    by (simp_all add: blank_regmap_def)
  have tr: "trace ?s = []" "trace ?t = []"
    by (simp_all add: blank_regmap_def)
  have m2: "((4 :: int) OR (AWE_STATUS_PLL_LOL OR AWE_STATUS_PLL_SYS_CAL)) AND 0xf = 5"
    by (simp add: AWE_STATUS_PLL_LOL_def AWE_STATUS_PLL_SYS_CAL_def)
  from post_init_polling [OF fs s0, of blank_regmap 0 0]
  have "\<forall>pre1 v1 pre2 v2 rest.
        chip ?s = pre1 @ v1 # pre2 @ v2 # rest \<and> length pre1 < 10 \<and>
        (\<forall>x\<in>set pre1. uint x AND 4 \<noteq> 0) \<and> uint v1 AND 4 = 0 \<and>
        length pre2 < 10 \<and> (\<forall>x\<in>set pre2. uint x AND 5 \<noteq> 0) \<and> uint v2 AND 5 = 0 \<longrightarrow>
        fst (post_init ?s) = 0 \<and>
        status_reads (trace (snd (post_init ?s))) =
          status_reads (trace ?s) + (length pre1 + 1) + (length pre2 + 1) \<and>
        poll_sleeps (trace (snd (post_init ?s))) =
          poll_sleeps (trace ?s) + length pre1 + length pre2"
    unfolding m2 by blast
  from this [rule_format, of "[4, 4]" 0 "[1, 1]" 0 "[]"]
  have 1: "fst (post_init ?s) = 0 \<and> status_reads (trace (snd (post_init ?s))) = 6 \<and>
      poll_sleeps (trace (snd (post_init ?s))) = 4"
    by (simp add: blank_regmap_def status_reads_def poll_sleeps_def)
  from post_init_polling [OF ft t0, of blank_regmap 0 0]
  have "\<forall>pre rest.
        chip ?t = pre @ rest \<and> length pre = 10 \<and> (\<forall>x\<in>set pre. uint x AND 4 \<noteq> 0) \<longrightarrow>
        fst (post_init ?t) = - ETIMEDOUT \<and>
        status_reads (trace (snd (post_init ?t))) = status_reads (trace ?t) + 10 \<and>
        poll_sleeps (trace (snd (post_init ?t))) = poll_sleeps (trace ?t) + 10"
    by blast
  from this [rule_format, of "[4, 4, 4, 4, 4, 4, 4, 4, 4, 4]" "[]"]
  have 2: "fst (post_init ?t) = - ETIMEDOUT \<and> status_reads (trace (snd (post_init ?t))) = 10"
    by (simp add: blank_regmap_def status_reads_def)
  from 1 2 show ?thesis
    by simp
qed

end
